theory Spec2Isabelle
  imports Main "HOL-Library.Word"
begin

unbundle bit_operations_syntax

section \<open>River crossing: the state and its moves\<close>

text \<open>
  The constants of the crossing puzzle. C++ \<open>int\<close> values are modelled as mathematical
  integers: every count the search produces stays between 0 and the fixed totals, so no
  arithmetic of the program comes near the limits of a 32-bit \<open>int\<close>.
\<close>

definition BOAT_CAPACITY :: int where "BOAT_CAPACITY = 2"
definition TOTAL_CANNIBALS :: int where "TOTAL_CANNIBALS = 3"
definition TOTAL_EXPLORERS :: int where "TOTAL_EXPLORERS = 3"

text \<open>\<open>enum Shore { LEFT, RIGHT }\<close>; the state stores the side in an \<open>int\<close>.\<close>

definition LEFT :: int where "LEFT = 0"
definition RIGHT :: int where "RIGHT = 1"

record Move =
  cannibalCount :: int
  explorerCount :: int

record State =
  leftCannibals :: int
  leftExplorers :: int
  rightCannibals :: int
  rightExplorers :: int
  boatSide :: int

text \<open>The default member initialisers of \<open>class State\<close>.\<close>

definition initState :: State where
  "initState = \<lparr> leftCannibals = TOTAL_CANNIBALS, leftExplorers = TOTAL_EXPLORERS,
                 rightCannibals = 0, rightExplorers = 0, boatSide = LEFT \<rparr>"

definition isSuccess :: "State \<Rightarrow> bool" where
  "isSuccess s \<longleftrightarrow> rightCannibals s = TOTAL_CANNIBALS \<and> rightExplorers s = TOTAL_EXPLORERS"

definition isValid :: "State \<Rightarrow> bool" where
  "isValid s \<longleftrightarrow>
     \<not> ((leftCannibals s > leftExplorers s \<and> leftExplorers s \<noteq> 0) \<or>
        (rightCannibals s > rightExplorers s \<and> rightExplorers s \<noteq> 0))"

definition applyMove :: "Move \<Rightarrow> State \<Rightarrow> State" where
  "applyMove m s =
     (if boatSide s = RIGHT
      then s\<lparr> leftExplorers := leftExplorers s + explorerCount m,
              leftCannibals := leftCannibals s + cannibalCount m,
              rightExplorers := rightExplorers s - explorerCount m,
              rightCannibals := rightCannibals s - cannibalCount m,
              boatSide := boatSide s XOR 1 \<rparr>
      else s\<lparr> leftExplorers := leftExplorers s - explorerCount m,
              leftCannibals := leftCannibals s - cannibalCount m,
              rightExplorers := rightExplorers s + explorerCount m,
              rightCannibals := rightCannibals s + cannibalCount m,
              boatSide := boatSide s XOR 1 \<rparr>)"

definition undoMove :: "Move \<Rightarrow> State \<Rightarrow> State" where
  "undoMove m s = applyMove m s"

text \<open>
  The two nested \<open>for\<close> loops of \<open>createMoveList\<close>: \<open>c\<close> from 0 to
  \<open>min(BOAT_CAPACITY, cannibals)\<close>, \<open>e\<close> from 0 to \<open>min(BOAT_CAPACITY - c, explorers)\<close>,
  keeping the pairs with \<open>c + e > 0\<close> in the order the loops produce them.
\<close>

definition createMoveList :: "State \<Rightarrow> Move list" where
  "createMoveList s =
     (let cannibals = (if boatSide s = LEFT then leftCannibals s else rightCannibals s);
          explorers = (if boatSide s = LEFT then leftExplorers s else rightExplorers s)
      in concat (map (\<lambda>c.
           concat (map (\<lambda>e. if c + e > 0
                             then [\<lparr> cannibalCount = c, explorerCount = e \<rparr>] else [])
                       [0 .. min (BOAT_CAPACITY - c) explorers]))
           [0 .. min BOAT_CAPACITY cannibals]))"

section \<open>River crossing: the search\<close>

record Solution =
  currentState :: State
  previousMoves :: "Move list"
  visitedStates :: "State set"
  solutionMoves :: "Move list"

definition initSolution :: Solution where
  "initSolution = \<lparr> currentState = initState, previousMoves = [],
                    visitedStates = {}, solutionMoves = [] \<rparr>"

text \<open>
  \<open>Solution::backtrack\<close> recurses through the shared object. The model threads the object
  through the calls and bounds the recursion depth by a fuel argument: \<open>None\<close> means that
  the depth bound was reached, \<open>Some s\<close> that the call returned and left the object as \<open>s\<close>.
  \<open>backtrackMoves\<close> is the range-\<open>for\<close> loop over the move list.
\<close>

fun backtrack :: "nat \<Rightarrow> Solution \<Rightarrow> Solution option"
  and backtrackMoves :: "nat \<Rightarrow> Move list \<Rightarrow> Solution \<Rightarrow> Solution option" where
  "backtrack 0 s = None"
| "backtrack (Suc n) s =
     (if \<not> isValid (currentState s) \<or> currentState s \<in> visitedStates s then Some s
      else let s1 = s\<lparr> visitedStates := insert (currentState s) (visitedStates s) \<rparr> in
        if isSuccess (currentState s1)
        then Some (if solutionMoves s1 = [] \<or> length (previousMoves s1) < length (solutionMoves s1)
                   then s1\<lparr> solutionMoves := previousMoves s1 \<rparr> else s1)
        else backtrackMoves n (createMoveList (currentState s1)) s1)"
| "backtrackMoves n [] s = Some s"
| "backtrackMoves n (m # ms) s =
     (case backtrack n (s\<lparr> currentState := applyMove m (currentState s),
                           previousMoves := previousMoves s @ [m] \<rparr>) of
        None \<Rightarrow> None
      | Some s' \<Rightarrow>
          backtrackMoves n ms (s'\<lparr> currentState := undoMove m (currentState s'),
                                  previousMoves := butlast (previousMoves s') \<rparr>))"

text \<open>Replaying a move sequence, as \<open>printOutput\<close> does on a fresh \<open>State\<close>.\<close>

fun replay :: "Move list \<Rightarrow> State \<Rightarrow> State" where
  "replay [] s = s"
| "replay (m # ms) s = replay ms (applyMove m s)"

text \<open>The states passed through while replaying, the first and the last included.\<close>

fun trajectory :: "Move list \<Rightarrow> State \<Rightarrow> State list" where
  "trajectory [] s = [s]"
| "trajectory (m # ms) s = s # trajectory ms (applyMove m s)"

section \<open>River crossing: the notions the properties are stated with\<close>

text \<open>
  A state is within bounds when every shore count is non-negative, the counts of each
  kind add up to the fixed totals and the boat is at one of the two shores. The state
  space of the search is the set of these states.
\<close>

definition inBounds :: "State \<Rightarrow> bool" where
  "inBounds s \<longleftrightarrow>
     0 \<le> leftCannibals s \<and> 0 \<le> leftExplorers s \<and> 0 \<le> rightCannibals s \<and> 0 \<le> rightExplorers s \<and>
     leftCannibals s + rightCannibals s = TOTAL_CANNIBALS \<and>
     leftExplorers s + rightExplorers s = TOTAL_EXPLORERS \<and>
     (boatSide s = LEFT \<or> boatSide s = RIGHT)"

definition stateSpace :: "State set" where
  "stateSpace = {s. inBounds s}"

text \<open>
  A sequence of legal moves through valid states only: every move is one that
  \<open>createMoveList\<close> offers in the state it is applied to, and every state on the way,
  the first and the last included, passes \<open>isValid\<close>.
\<close>

fun legalPath :: "State \<Rightarrow> Move list \<Rightarrow> bool" where
  "legalPath s [] = isValid s"
| "legalPath s (m # ms) = (isValid s \<and> m \<in> set (createMoveList s) \<and> legalPath (applyMove m s) ms)"

text \<open>The valid successors of a list of states, used to bound the length of any solution.\<close>

definition nextStates :: "State list \<Rightarrow> State list" where
  "nextStates S = remdups (concat (map (\<lambda>s. filter isValid (map (\<lambda>m. applyMove m s) (createMoveList s))) S))"

text \<open>The move sequence the search records for the hard-coded configuration.\<close>

definition riverSolution :: "Move list" where
  "riverSolution = map (\<lambda>(c, e). \<lparr> cannibalCount = c, explorerCount = e \<rparr>)
     [(1,1), (0,1), (2,0), (1,0), (0,2), (1,1), (0,2), (1,0), (2,0), (0,1), (1,1)]"

text \<open>What a returning call leaves behind: more visited states, the same position.\<close>

definition returnsFrom :: "Solution \<Rightarrow> Solution \<Rightarrow> bool" where
  "returnsFrom s r \<longleftrightarrow>
     visitedStates s \<subseteq> visitedStates r \<and> currentState r = currentState s \<and>
     previousMoves r = previousMoves s"

section \<open>Knight's tour: bitboards\<close>

text \<open>
  \<open>Bitboard\<close> is \<open>uint64_t\<close>: one bit per square, square \<open>8 * row + column\<close>. Square
  indices and degrees are C++ \<open>int\<close> values that are never negative in the program; they
  are modelled as natural numbers. \<open>noSq\<close> is the enumerator after \<open>h8\<close>.
\<close>

type_synonym Bitboard = "64 word"
type_synonym MoveList = "(nat \<times> nat) list"

definition FullBB :: Bitboard where "FullBB = 0xFFFFFFFFFFFFFFFF"
definition FileABB :: Bitboard where "FileABB = 0x0101010101010101"
definition FileBBB :: Bitboard where "FileBBB = push_bit 1 FileABB"
definition FileGBB :: Bitboard where "FileGBB = push_bit 6 FileABB"
definition FileHBB :: Bitboard where "FileHBB = push_bit 7 FileABB"

definition noSq :: nat where "noSq = 64"

definition setBit :: "Bitboard \<Rightarrow> nat \<Rightarrow> Bitboard" where
  "setBit b sq = b OR push_bit sq 1"

definition popBit :: "Bitboard \<Rightarrow> nat \<Rightarrow> Bitboard" where
  "popBit b sq = b AND NOT (push_bit sq 1)"

text \<open>
  \<open>__builtin_ctzll\<close>: the index of the lowest set bit. The builtin is undefined on 0; the
  program only calls it on a non-zero board, and the model returns 64 there.
\<close>

definition lsb :: "Bitboard \<Rightarrow> nat" where
  "lsb b = (case List.find (bit b) [0..<64] of Some n \<Rightarrow> n | None \<Rightarrow> 64)"

definition popLsb :: "Bitboard \<Rightarrow> nat \<times> Bitboard" where
  "popLsb b = (let sq = lsb b in (sq, b AND NOT (push_bit sq 1)))"

text \<open>\<open>__builtin_popcountll\<close>: the number of set bits.\<close>

definition bitCount :: "Bitboard \<Rightarrow> nat" where
  "bitCount b = length (filter (bit b) [0..<64])"

definition coordsToSq :: "nat \<Rightarrow> nat \<Rightarrow> nat" where
  "coordsToSq row column = row * 8 + column"

definition getRow :: "nat \<Rightarrow> nat" where
  "getRow sq = sq div 8"

definition getColumn :: "nat \<Rightarrow> nat" where
  "getColumn sq = sq mod 8"

section \<open>Knight's tour: move generation\<close>

text \<open>
  \<open>genMoveBoard\<close> reads the member \<open>visitedSqs\<close>; the model takes it as its first argument.
\<close>

definition genMoveBoard :: "Bitboard \<Rightarrow> nat \<Rightarrow> Bitboard" where
  "genMoveBoard visited sq =
     (let bb = push_bit sq 1;
          attacks = 0;
          attacks = attacks OR push_bit 15 (NOT FileABB AND bb);
          attacks = attacks OR push_bit 17 (NOT FileHBB AND bb);
          attacks = attacks OR push_bit 6 (NOT (FileABB OR FileBBB) AND bb);
          attacks = attacks OR push_bit 10 (NOT (FileGBB OR FileHBB) AND bb);
          attacks = attacks OR drop_bit 17 (NOT FileABB AND bb);
          attacks = attacks OR drop_bit 15 (NOT FileHBB AND bb);
          attacks = attacks OR drop_bit 10 (NOT (FileABB OR FileBBB) AND bb);
          attacks = attacks OR drop_bit 6 (NOT (FileGBB OR FileHBB) AND bb)
      in attacks AND NOT visited)"

text \<open>
  Reading or writing \<open>moves[i]\<close> with \<open>i\<close> outside 0..7 and shifting by 64 or more are
  undefined in C++; the model returns an error there instead of a value.
\<close>

datatype error = ShiftOutOfRange | IndexOutOfRange

text \<open>
  The inner \<open>while\<close> loop of \<open>genList\<close> together with the store after it. The first
  argument is \<open>i + 1\<close>: the loop moves \<open>moves[i]\<close> one slot up while its degree is larger
  than the new one, then stores the new pair at \<open>i + 1\<close>.
\<close>

fun insertMove :: "nat \<Rightarrow> nat \<times> nat \<Rightarrow> MoveList \<Rightarrow> error + MoveList" where
  "insertMove 0 newSq moves = Inr (moves[0 := newSq])"
| "insertMove (Suc i) newSq moves =
     (if 8 \<le> Suc i then Inl IndexOutOfRange
      else if snd (moves ! i) > snd newSq
           then insertMove i newSq (moves[Suc i := moves ! i])
           else Inr (moves[Suc i := newSq]))"

lemma lsb_bit:
  assumes "b \<noteq> 0"
  shows "bit b (lsb b) \<and> lsb b < 64"
proof -
  from assms obtain n where n: "bit b n"
    by (auto simp: bit_eq_iff)
  then have "n < 64"
    using bit_imp_le_length [of b n] by simp
  with n have "List.find (bit b) [0..<64] \<noteq> None"
    by (auto simp: find_None_iff)
  then obtain k where k: "List.find (bit b) [0..<64] = Some k"
    by auto
  then have "bit b k \<and> k < 64"
    by (auto simp: find_Some_iff)
  with k show ?thesis
    by (simp add: lsb_def)
qed

lemma popLsb_less:
  assumes "attacks \<noteq> 0" and "(sq, rest) = popLsb attacks"
  shows "rest < attacks"
proof -
  have r: "rest = attacks AND NOT (push_bit (lsb attacks) 1)"
    using assms(2) by (auto simp: popLsb_def Let_def)
  have "rest \<le> attacks"
    unfolding r by (rule word_and_le2)
  moreover have "\<not> bit rest (lsb attacks)"
    unfolding r by (simp add: bit_simps)
  with lsb_bit [OF assms(1)] have "rest \<noteq> attacks"
    by auto
  ultimately show ?thesis
    by simp
qed

text \<open>The outer \<open>while(attacks)\<close> loop of \<open>genList\<close>; each round clears one bit.\<close>

function genListLoop :: "Bitboard \<Rightarrow> Bitboard \<Rightarrow> nat \<Rightarrow> MoveList \<Rightarrow> error + MoveList" where
  "genListLoop visited attacks count moves =
     (if attacks = 0 then Inr moves
      else case popLsb attacks of (sq, rest) \<Rightarrow>
        (case insertMove count (sq, bitCount (genMoveBoard visited sq)) moves of
           Inl e \<Rightarrow> Inl e
         | Inr moves' \<Rightarrow> genListLoop visited rest (count + 1) moves'))"
  by pat_completeness auto
termination
  by (relation "measure (\<lambda>(v, a, c, m). unat a)")
     (auto simp: word_less_nat_alt [symmetric] intro: popLsb_less)

declare genListLoop.simps [simp del]

definition genList :: "Bitboard \<Rightarrow> nat \<Rightarrow> error + MoveList" where
  "genList visited sq = genListLoop visited (genMoveBoard visited sq) 0 (replicate 8 (noSq, 9))"

section \<open>Knight's tour: the search\<close>

record Backtrack =
  visitedSqs :: Bitboard
  stackSq :: "nat list"
  fullTour :: bool
  totalMoves :: int
  startingSq :: nat

text \<open>The default member initialisers of \<open>class Backtrack\<close>.\<close>

definition initBacktrack :: Backtrack where
  "initBacktrack = \<lparr> visitedSqs = 0, stackSq = [], fullTour = False, totalMoves = 0,
                     startingSq = noSq \<rparr>"

text \<open>The two statements \<open>popBit(visitedSqs, sq); stackSq.pop_back();\<close>.\<close>

definition undoSq :: "nat \<Rightarrow> Backtrack \<Rightarrow> Backtrack" where
  "undoSq sq st = st\<lparr> visitedSqs := popBit (visitedSqs st) sq, stackSq := butlast (stackSq st) \<rparr>"

text \<open>
  \<open>Backtrack::makeMove\<close> of the source file whose check of the full board is
  \<open>visitedSqs == FullBB\<close>. The first argument bounds the recursion depth: \<open>None\<close> means
  that the bound was reached, \<open>Some (Inl e)\<close> that the program ran into undefined
  behaviour, \<open>Some (Inr st)\<close> that the call returned and left the object as \<open>st\<close>.
  \<open>tryMoves\<close> is the loop \<open>while(moves[i].first != noSq)\<close> with the undo after it.
\<close>

function makeMove :: "nat \<Rightarrow> nat \<Rightarrow> Backtrack \<Rightarrow> (error + Backtrack) option"
  and tryMoves :: "nat \<Rightarrow> MoveList \<Rightarrow> nat \<Rightarrow> nat \<Rightarrow> Backtrack \<Rightarrow> (error + Backtrack) option" where
  "makeMove 0 sq st = None"
| "makeMove (Suc n) sq st =
     (if 64 \<le> sq then Some (Inl ShiftOutOfRange)
      else let st1 = st\<lparr> totalMoves := totalMoves st + 1,
                         visitedSqs := setBit (visitedSqs st) sq,
                         stackSq := stackSq st @ [sq] \<rparr> in
        if visitedSqs st1 = FullBB then Some (Inr (st1\<lparr> fullTour := True \<rparr>))
        else case genList (visitedSqs st1) sq of
               Inl e \<Rightarrow> Some (Inl e)
             | Inr moves \<Rightarrow>
                 if fst (moves ! 0) = noSq then Some (Inr (undoSq sq st1))
                 else tryMoves n moves 0 sq st1)"
| "tryMoves n moves i sq st =
     (if 8 \<le> i then Some (Inl IndexOutOfRange)
      else if fst (moves ! i) = noSq then Some (Inr (undoSq sq st))
      else case makeMove n (fst (moves ! i)) st of
             None \<Rightarrow> None
           | Some (Inl e) \<Rightarrow> Some (Inl e)
           | Some (Inr st') \<Rightarrow>
               if fullTour st' then Some (Inr st') else tryMoves n moves (i + 1) sq st')"
  by pat_completeness auto
termination
  by (relation "measures [\<lambda>x. case x of Inl (n, sq, st) \<Rightarrow> n | Inr (n, moves, i, sq, st) \<Rightarrow> n,
                          \<lambda>x. case x of Inl _ \<Rightarrow> 0 | Inr _ \<Rightarrow> 1,
                          \<lambda>x. case x of Inl _ \<Rightarrow> 0 | Inr (n, moves, i, sq, st) \<Rightarrow> 8 - i]") auto

declare makeMove.simps [simp del] tryMoves.simps [simp del]

definition backtrack_tour :: "nat \<Rightarrow> nat \<Rightarrow> Backtrack \<Rightarrow> (error + Backtrack) option" where
  "backtrack_tour n sq st = makeMove n sq (st\<lparr> startingSq := sq \<rparr>)"

text \<open>
  \<open>Backtrack::makeMove\<close> of \<open>knights_tour/main.cpp\<close>: the same function, except that the
  check of the full board is \<open>(visitedSqs == FullBB) || fullTour\<close>.
\<close>

function makeMove_main :: "nat \<Rightarrow> nat \<Rightarrow> Backtrack \<Rightarrow> (error + Backtrack) option"
  and tryMoves_main :: "nat \<Rightarrow> MoveList \<Rightarrow> nat \<Rightarrow> nat \<Rightarrow> Backtrack \<Rightarrow> (error + Backtrack) option" where
  "makeMove_main 0 sq st = None"
| "makeMove_main (Suc n) sq st =
     (if 64 \<le> sq then Some (Inl ShiftOutOfRange)
      else let st1 = st\<lparr> totalMoves := totalMoves st + 1,
                         visitedSqs := setBit (visitedSqs st) sq,
                         stackSq := stackSq st @ [sq] \<rparr> in
        if visitedSqs st1 = FullBB \<or> fullTour st1 then Some (Inr (st1\<lparr> fullTour := True \<rparr>))
        else case genList (visitedSqs st1) sq of
               Inl e \<Rightarrow> Some (Inl e)
             | Inr moves \<Rightarrow>
                 if fst (moves ! 0) = noSq then Some (Inr (undoSq sq st1))
                 else tryMoves_main n moves 0 sq st1)"
| "tryMoves_main n moves i sq st =
     (if 8 \<le> i then Some (Inl IndexOutOfRange)
      else if fst (moves ! i) = noSq then Some (Inr (undoSq sq st))
      else case makeMove_main n (fst (moves ! i)) st of
             None \<Rightarrow> None
           | Some (Inl e) \<Rightarrow> Some (Inl e)
           | Some (Inr st') \<Rightarrow>
               if fullTour st' then Some (Inr st') else tryMoves_main n moves (i + 1) sq st')"
  by pat_completeness auto
termination
  by (relation "measures [\<lambda>x. case x of Inl (n, sq, st) \<Rightarrow> n | Inr (n, moves, i, sq, st) \<Rightarrow> n,
                          \<lambda>x. case x of Inl _ \<Rightarrow> 0 | Inr _ \<Rightarrow> 1,
                          \<lambda>x. case x of Inl _ \<Rightarrow> 0 | Inr (n, moves, i, sq, st) \<Rightarrow> 8 - i]") auto

declare makeMove_main.simps [simp del] tryMoves_main.simps [simp del]

definition backtrack_tour_main :: "nat \<Rightarrow> nat \<Rightarrow> Backtrack \<Rightarrow> (error + Backtrack) option" where
  "backtrack_tour_main n sq st = makeMove_main n sq (st\<lparr> startingSq := sq \<rparr>)"

section \<open>Knight's tour: the notions the properties are stated with\<close>

text \<open>
  A legal knight move on the 8x8 board: both squares are on the board, and they are one
  row and two columns apart, or two rows and one column.
\<close>

definition knightMove :: "nat \<Rightarrow> nat \<Rightarrow> bool" where
  "knightMove a b \<longleftrightarrow> a < 64 \<and> b < 64 \<and>
     ((\<bar>int (getRow a) - int (getRow b)\<bar> = 1 \<and> \<bar>int (getColumn a) - int (getColumn b)\<bar> = 2) \<or>
      (\<bar>int (getRow a) - int (getRow b)\<bar> = 2 \<and> \<bar>int (getColumn a) - int (getColumn b)\<bar> = 1))"

text \<open>The same relation by the eight index offsets of the board layout.\<close>

definition knightOffset :: "nat \<Rightarrow> nat \<Rightarrow> bool" where
  "knightOffset sq d \<longleftrightarrow>
     (d = sq + 15 \<and> d < 64 \<and> sq mod 8 \<noteq> 0) \<or>
     (d = sq + 17 \<and> d < 64 \<and> sq mod 8 \<noteq> 7) \<or>
     (d = sq + 6 \<and> d < 64 \<and> sq mod 8 \<noteq> 0 \<and> sq mod 8 \<noteq> 1) \<or>
     (d = sq + 10 \<and> d < 64 \<and> sq mod 8 \<noteq> 6 \<and> sq mod 8 \<noteq> 7) \<or>
     (d + 17 = sq \<and> sq mod 8 \<noteq> 0) \<or>
     (d + 15 = sq \<and> sq mod 8 \<noteq> 7) \<or>
     (d + 10 = sq \<and> sq mod 8 \<noteq> 0 \<and> sq mod 8 \<noteq> 1) \<or>
     (d + 6 = sq \<and> sq mod 8 \<noteq> 6 \<and> sq mod 8 \<noteq> 7)"

text \<open>The squares of a bitboard, in ascending order.\<close>

definition squaresOf :: "Bitboard \<Rightarrow> nat list" where
  "squaresOf b = filter (bit b) [0..<64]"

text \<open>
  The order of the candidates of a move list: by smaller onward degree, and among equal
  degrees by smaller square index. The pairs are (square, degree).
\<close>

definition degreeBefore :: "nat \<times> nat \<Rightarrow> nat \<times> nat \<Rightarrow> bool" where
  "degreeBefore a b \<longleftrightarrow> snd a < snd b \<or> (snd a = snd b \<and> fst a < fst b)"

text \<open>
  The number of legal knight moves from \<open>d\<close> to squares that are not visited on the
  board \<open>visited\<close>.
\<close>

definition onwardMoves :: "Bitboard \<Rightarrow> nat \<Rightarrow> nat" where
  "onwardMoves visited d = length (filter (\<lambda>t. knightMove d t \<and> \<not> bit visited t) [0..<64])"

text \<open>The rounds of the outer loop of \<open>genList\<close>, over the list of candidate squares.\<close>

fun insertAll :: "Bitboard \<Rightarrow> nat list \<Rightarrow> nat \<Rightarrow> MoveList \<Rightarrow> error + MoveList" where
  "insertAll visited [] count moves = Inr moves"
| "insertAll visited (d # ds) count moves =
     (case insertMove count (d, bitCount (genMoveBoard visited d)) moves of
        Inl e \<Rightarrow> Inl e
      | Inr moves' \<Rightarrow> insertAll visited ds (count + 1) moves')"

text \<open>
  A board on which the knight went b3, d4, c2: both knight destinations of the corner a1
  are visited, the corner itself is not.
\<close>

definition cornerState :: Backtrack where
  "cornerState = \<lparr> visitedSqs = 134349824, stackSq = [17, 27, 10], fullTour = False,
                    totalMoves = 3, startingSq = 17 \<rparr>"

section \<open>Knight's tour: checking a path against the move order\<close>

text \<open>
  The knight destinations of a square as a list, in the order of the eight shifts of
  \<open>genMoveBoard\<close>; those not yet visited; and the test that \<open>d\<close> is the candidate that
  comes first in the order of \<open>genList\<close>: smallest onward degree, then smallest index.
\<close>

definition knightTargets :: "nat \<Rightarrow> nat list" where
  "knightTargets sq =
     (let c = sq mod 8 in
      (if c \<noteq> 0 \<and> sq + 15 < 64 then [sq + 15] else []) @
      (if c \<noteq> 7 \<and> sq + 17 < 64 then [sq + 17] else []) @
      (if c \<noteq> 0 \<and> c \<noteq> 1 \<and> sq + 6 < 64 then [sq + 6] else []) @
      (if c \<noteq> 6 \<and> c \<noteq> 7 \<and> sq + 10 < 64 then [sq + 10] else []) @
      (if c \<noteq> 0 \<and> 17 \<le> sq then [sq - 17] else []) @
      (if c \<noteq> 7 \<and> 15 \<le> sq then [sq - 15] else []) @
      (if c \<noteq> 0 \<and> c \<noteq> 1 \<and> 10 \<le> sq then [sq - 10] else []) @
      (if c \<noteq> 6 \<and> c \<noteq> 7 \<and> 6 \<le> sq then [sq - 6] else []))"

definition freeTargets :: "Bitboard \<Rightarrow> nat \<Rightarrow> nat list" where
  "freeTargets visited sq = filter (\<lambda>d. \<not> bit visited d) (knightTargets sq)"

definition firstChoice :: "Bitboard \<Rightarrow> nat \<Rightarrow> nat \<Rightarrow> bool" where
  "firstChoice visited sq d \<longleftrightarrow>
     d \<in> set (freeTargets visited sq) \<and>
     (let g = length (freeTargets visited d) in
      \<forall>c \<in> set (freeTargets visited sq).
        c = d \<or> degreeBefore (d, g) (c, length (freeTargets visited c)))"

text \<open>
  A path that the search follows without ever backtracking: each square is the first
  choice after its predecessor, and the last one fills the board.
\<close>

fun greedyTour :: "Bitboard \<Rightarrow> nat list \<Rightarrow> bool" where
  "greedyTour visited [] = False"
| "greedyTour visited [sq] = (sq < 64 \<and> setBit visited sq = FullBB)"
| "greedyTour visited (sq # d # p) =
     (sq < 64 \<and> setBit visited sq \<noteq> FullBB \<and> firstChoice (setBit visited sq) sq d \<and>
      greedyTour (setBit visited sq) (d # p))"

text \<open>The path of the search that starts at a1.\<close>

definition tourA1 :: "nat list" where
  "tourA1 = [0, 10, 4, 14, 31, 46, 63, 53, 47, 62, 52, 58, 48, 33, 16, 1,
             11, 5, 15, 21, 6, 23, 38, 55, 61, 51, 57, 40, 25, 8, 2, 17, 32,
             42, 59, 49, 34, 24, 9, 3, 18, 12, 27, 44, 29, 19, 36, 26, 41,
             56, 50, 35, 20, 30, 13, 7, 22, 28, 43, 37, 54, 39, 45, 60]"

text \<open>
  The invariant of the search: the path has no repetition, consecutive squares are a
  knight move apart, and the visited squares are exactly the squares of the path.
\<close>

definition tourInv :: "Backtrack \<Rightarrow> bool" where
  "tourInv st \<longleftrightarrow>
     distinct (stackSq st) \<and> successively knightMove (stackSq st) \<and>
     (\<forall>k. bit (visitedSqs st) k \<longleftrightarrow> k \<in> set (stackSq st))"

text \<open>
  The move list of \<open>makeMove(sq)\<close>: the call of \<open>genList\<close> comes after \<open>setBit\<close>, so it
  runs on the board on which \<open>sq\<close> is already marked.
\<close>

definition movesOf :: "Backtrack \<Rightarrow> nat \<Rightarrow> error + MoveList" where
  "movesOf st sq = genList (setBit (visitedSqs st) sq) sq"

section \<open>River crossing: properties\<close>

lemma applyMove_twice:
  assumes "boatSide s = LEFT \<or> boatSide s = RIGHT"
  shows "applyMove m (applyMove m s) = s"
  using assms by (auto simp: applyMove_def LEFT_def RIGHT_def)

text \<open>
  Claim C6. The boat side of a \<open>State\<close> object is \<open>LEFT\<close> or \<open>RIGHT\<close>: it starts at
  \<open>LEFT\<close>, and \<open>applyMove\<close>, the only function that changes it, keeps it at one of the
  two. For every such state and every move, applying the move twice in succession gives
  back the state unchanged: the four shore counts and the boat side. Hence \<open>undoMove\<close>
  after \<open>applyMove\<close> restores the prior state.
\<close>

theorem applyMove_self_inverse:
  assumes "boatSide s = LEFT \<or> boatSide s = RIGHT"
  shows "applyMove m (applyMove m s) = s \<and> undoMove m (applyMove m s) = s \<and>
         (boatSide (applyMove m s) = LEFT \<or> boatSide (applyMove m s) = RIGHT)"
  using assms by (auto simp: applyMove_def undoMove_def LEFT_def RIGHT_def)

theorem applyMove_self_inverse_witness:
  "(boatSide initState = LEFT \<or> boatSide initState = RIGHT) \<and>
   applyMove \<lparr> cannibalCount = 1, explorerCount = 1 \<rparr>
     (applyMove \<lparr> cannibalCount = 1, explorerCount = 1 \<rparr> initState) = initState \<and>
   undoMove \<lparr> cannibalCount = 1, explorerCount = 1 \<rparr>
     (applyMove \<lparr> cannibalCount = 1, explorerCount = 1 \<rparr> initState) = initState \<and>
   boatSide (applyMove \<lparr> cannibalCount = 1, explorerCount = 1 \<rparr> initState) = RIGHT"
  using applyMove_self_inverse [of initState "\<lparr> cannibalCount = 1, explorerCount = 1 \<rparr>"]
  by (simp add: initState_def LEFT_def RIGHT_def applyMove_def)

subsection \<open>Termination and the depth bound\<close>

lemma createMoveList_bounds:
  assumes "m \<in> set (createMoveList s)"
  shows "0 \<le> cannibalCount m \<and> 0 \<le> explorerCount m \<and>
         cannibalCount m \<le> (if boatSide s = LEFT then leftCannibals s else rightCannibals s) \<and>
         explorerCount m \<le> (if boatSide s = LEFT then leftExplorers s else rightExplorers s)"
  using assms by (auto simp: createMoveList_def Let_def split: if_splits)

lemma applyMove_inBounds:
  assumes "inBounds s" and "m \<in> set (createMoveList s)"
  shows "inBounds (applyMove m s)"
  using assms(1) createMoveList_bounds [OF assms(2)]
  by (auto simp: inBounds_def applyMove_def LEFT_def RIGHT_def split: if_splits)

lemma finite_stateSpace: "finite stateSpace"
proof -
  let ?f = "\<lambda>(a, b, c, d, e). \<lparr> leftCannibals = a, leftExplorers = b, rightCannibals = c,
                                   rightExplorers = d, boatSide = e \<rparr>"
  have "stateSpace \<subseteq> ?f ` ({0..3} \<times> {0..3} \<times> {0..3} \<times> {0..3} \<times> {0..1})"
  proof
    fix s assume "s \<in> stateSpace"
    then have b: "inBounds s" by (simp add: stateSpace_def)
    have "s = ?f (leftCannibals s, leftExplorers s, rightCannibals s, rightExplorers s, boatSide s)"
      by simp
    moreover have "(leftCannibals s, leftExplorers s, rightCannibals s, rightExplorers s, boatSide s)
        \<in> {0..3} \<times> {0..3} \<times> {0..3} \<times> {0..3} \<times> {0..1}"
      using b by (auto simp: inBounds_def TOTAL_CANNIBALS_def TOTAL_EXPLORERS_def LEFT_def RIGHT_def)
    ultimately show "s \<in> ?f ` ({0..3} \<times> {0..3} \<times> {0..3} \<times> {0..3} \<times> {0..1})"
      by (rule image_eqI)
  qed
  then show ?thesis
    by (rule finite_subset) simp
qed

lemma backtrack_returns:
  assumes "inBounds (currentState s)" and "card (stateSpace - visitedStates s) < n"
  shows "\<exists>r. backtrack n s = Some r \<and> returnsFrom s r \<and>
             (isValid (currentState s) \<longrightarrow> currentState s \<in> visitedStates r)"
  using assms
proof (induction n arbitrary: s)
  case 0
  then show ?case by simp
next
  case (Suc n)
  have loop: "\<exists>r. backtrackMoves n ms t = Some r \<and> returnsFrom t r"
    if "set ms \<subseteq> set (createMoveList (currentState t))" and "inBounds (currentState t)"
      and "card (stateSpace - visitedStates t) < n" for ms t
    using that
  proof (induction ms arbitrary: t)
    case Nil
    show ?case by (simp add: returnsFrom_def)
  next
    case (Cons m ms)
    let ?t1 = "t\<lparr> currentState := applyMove m (currentState t),
                    previousMoves := previousMoves t @ [m] \<rparr>"
    have "inBounds (currentState ?t1)"
      using Cons.prems(1,2) by (simp add: applyMove_inBounds)
    moreover have "card (stateSpace - visitedStates ?t1) < n"
      using Cons.prems(3) by simp
    ultimately obtain r1 where r1: "backtrack n ?t1 = Some r1" "returnsFrom ?t1 r1"
      using Suc.IH by blast
    let ?t2 = "r1\<lparr> currentState := undoMove m (currentState r1),
                     previousMoves := butlast (previousMoves r1) \<rparr>"
    have cur: "currentState ?t2 = currentState t"
      using r1(2) Cons.prems(2) by (simp add: returnsFrom_def undoMove_def applyMove_twice inBounds_def)
    have prev: "previousMoves ?t2 = previousMoves t"
      using r1(2) by (simp add: returnsFrom_def)
    have vis: "visitedStates t \<subseteq> visitedStates ?t2"
      using r1(2) by (simp add: returnsFrom_def)
    then have "stateSpace - visitedStates ?t2 \<subseteq> stateSpace - visitedStates t"
      by auto
    then have "card (stateSpace - visitedStates ?t2) \<le> card (stateSpace - visitedStates t)"
      by (intro card_mono) (simp_all add: finite_stateSpace)
    with Cons.prems(3) have "card (stateSpace - visitedStates ?t2) < n"
      by simp
    moreover have "set ms \<subseteq> set (createMoveList (currentState ?t2))"
      using Cons.prems(1) cur by simp
    moreover have "inBounds (currentState ?t2)"
      using Cons.prems(2) cur by simp
    ultimately obtain r where r: "backtrackMoves n ms ?t2 = Some r" "returnsFrom ?t2 r"
      using Cons.IH by blast
    have "returnsFrom t r"
      using r(2) cur prev vis unfolding returnsFrom_def by auto
    with r1(1) r(1) show ?case
      by simp
  qed
  show ?case
  proof (cases "\<not> isValid (currentState s) \<or> currentState s \<in> visitedStates s")
    case True
    then show ?thesis
      by (auto simp: returnsFrom_def)
  next
    case False
    let ?s1 = "s\<lparr> visitedStates := insert (currentState s) (visitedStates s) \<rparr>"
    have "currentState s \<in> stateSpace - visitedStates s"
      using False Suc.prems(1) by (simp add: stateSpace_def)
    then have "stateSpace - visitedStates ?s1 \<subset> stateSpace - visitedStates s"
      by auto
    then have "card (stateSpace - visitedStates ?s1) < card (stateSpace - visitedStates s)"
      by (intro psubset_card_mono) (simp_all add: finite_stateSpace)
    with Suc.prems(2) have c: "card (stateSpace - visitedStates ?s1) < n"
      by simp
    show ?thesis
    proof (cases "isSuccess (currentState s)")
      case True
      with False show ?thesis
        by (auto simp: returnsFrom_def Let_def)
    next
      case ns: False
      from loop [of "createMoveList (currentState ?s1)" ?s1] c Suc.prems(1)
      obtain r where r: "backtrackMoves n (createMoveList (currentState ?s1)) ?s1 = Some r"
        "returnsFrom ?s1 r"
        by auto
      from r(2) have "returnsFrom s r \<and> currentState s \<in> visitedStates r"
        by (auto simp: returnsFrom_def)
      with r(1) False ns show ?thesis
        by (auto simp: Let_def)
    qed
  qed
qed

lemma backtrack_fuel_mono:
  assumes "backtrack n s = Some r" and "n \<le> m"
  shows "backtrack m s = Some r"
  using assms
proof (induction n arbitrary: m s r)
  case 0
  then show ?case by simp
next
  case (Suc n)
  from Suc.prems(2) obtain m' where m: "m = Suc m'" and le: "n \<le> m'"
    by (cases m) auto
  have loop: "backtrackMoves m' ms t = Some r'" if "backtrackMoves n ms t = Some r'" for ms t r'
    using that
  proof (induction ms arbitrary: t)
    case Nil
    then show ?case by simp
  next
    case (Cons a ms)
    then show ?case
      using Suc.IH [OF _ le] by (auto split: option.splits)
  qed
  show ?case
    using Suc.prems(1) loop unfolding m by (auto simp: Let_def split: if_splits)
qed

lemma backtrack_12: "map_option solutionMoves (backtrack 12 initSolution) = Some riverSolution"
  by code_simp

lemma backtrack_init_result:
  assumes "backtrack n initSolution = Some r"
  shows "solutionMoves r = riverSolution"
proof -
  from backtrack_12 obtain r12 where r12: "backtrack 12 initSolution = Some r12"
    and sol: "solutionMoves r12 = riverSolution"
    by auto
  show ?thesis
  proof (cases "n \<le> 12")
    case True
    with assms have "backtrack 12 initSolution = Some r"
      by (rule backtrack_fuel_mono)
    with r12 sol show ?thesis by simp
  next
    case False
    then have "12 \<le> n" by simp
    with r12 have "backtrack n initSolution = Some r12"
      by (rule backtrack_fuel_mono)
    with assms sol show ?thesis by simp
  qed
qed

lemma legalPath_layer:
  assumes "legalPath s ms" and "s \<in> set S"
  shows "replay ms s \<in> set ((nextStates ^^ length ms) S)"
  using assms
proof (induction ms arbitrary: s S)
  case Nil
  then show ?case by simp
next
  case (Cons m ms)
  from Cons.prems have v: "legalPath (applyMove m s) ms" and m: "m \<in> set (createMoveList s)"
    by simp_all
  from v have "isValid (applyMove m s)"
    by (cases ms) simp_all
  with m Cons.prems(2) have "applyMove m s \<in> set (nextStates S)"
    by (auto simp: nextStates_def)
  from Cons.IH [OF v this] show ?case
    by (simp add: funpow_swap1)
qed

lemma layers_no_success: "\<forall>k \<in> set [0..<11]. \<not> list_ex isSuccess ((nextStates ^^ k) [initState])"
  by code_simp

subsection \<open>The recorded solution\<close>

lemma riverSolution_legal:
  "length riverSolution = 11 \<and> legalPath initState riverSolution \<and>
   isSuccess (replay riverSolution initState) \<and>
   rightCannibals (replay riverSolution initState) = 3 \<and>
   rightExplorers (replay riverSolution initState) = 3"
  by code_simp

lemma riverSolution_safe:
  "list_all (\<lambda>t. isValid t \<and> (leftExplorers t = 0 \<or> leftCannibals t \<le> leftExplorers t) \<and>
                 (rightExplorers t = 0 \<or> rightCannibals t \<le> rightExplorers t))
     (trajectory riverSolution initState)"
  by code_simp

lemma no_short_solution:
  assumes "legalPath initState ms" and "isSuccess (replay ms initState)"
  shows "11 \<le> length ms"
proof (rule ccontr)
  assume "\<not> 11 \<le> length ms"
  then have "length ms \<in> set [0..<11]"
    by simp
  with layers_no_success have "\<not> list_ex isSuccess ((nextStates ^^ length ms) [initState])"
    by blast
  moreover have "replay ms initState \<in> set ((nextStates ^^ length ms) [initState])"
    using assms(1) by (rule legalPath_layer) simp
  ultimately show False
    using assms(2) by (auto simp: list_ex_iff)
qed

lemma initState_inBounds: "inBounds initState"
  by (simp add: inBounds_def initState_def TOTAL_CANNIBALS_def TOTAL_EXPLORERS_def)

text \<open>
  Claim C1. For the hard-coded configuration (3 cannibals, 3 explorers, boat capacity 2)
  the search returns whenever the recursion depth allowed is at least 12, and then
  \<open>solutionMoves\<close> has exactly 11 moves, is a sequence of legal moves through valid states,
  replays from the initial state to the state with 3 cannibals and 3 explorers on the right
  shore, and no sequence of legal moves through valid states that reaches a success state
  is shorter.
\<close>

theorem backtrack_minimum_solution:
  assumes "12 \<le> n"
  shows "\<exists>r. backtrack n initSolution = Some r \<and>
           length (solutionMoves r) = 11 \<and>
           legalPath initState (solutionMoves r) \<and>
           isSuccess (replay (solutionMoves r) initState) \<and>
           rightCannibals (replay (solutionMoves r) initState) = 3 \<and>
           rightExplorers (replay (solutionMoves r) initState) = 3 \<and>
           (\<forall>ms. legalPath initState ms \<and> isSuccess (replay ms initState)
                 \<longrightarrow> length (solutionMoves r) \<le> length ms)"
proof -
  from backtrack_12 obtain r where r: "backtrack 12 initSolution = Some r"
    by auto
  from r assms have n: "backtrack n initSolution = Some r"
    by (rule backtrack_fuel_mono)
  from r have sol: "solutionMoves r = riverSolution"
    by (rule backtrack_init_result)
  show ?thesis
    using n riverSolution_legal no_short_solution unfolding sol [symmetric] by auto
qed

theorem backtrack_minimum_solution_witness:
  "(12::nat) \<le> 12 \<and> legalPath initState riverSolution \<and> isSuccess (replay riverSolution initState) \<and>
   (\<exists>r. backtrack 12 initSolution = Some r \<and> length (solutionMoves r) = 11 \<and>
        isSuccess (replay (solutionMoves r) initState) \<and>
        length (solutionMoves r) \<le> length riverSolution)"
  using backtrack_minimum_solution [of 12] riverSolution_legal by auto

text \<open>
  Claim C8. Every state of the trajectory obtained by replaying \<open>solutionMoves\<close> from the
  initial state, the initial and the final state included, is safe: on each shore the
  cannibals do not outnumber the explorers unless that shore has no explorer.
\<close>

theorem solution_trajectory_safe:
  assumes "backtrack n initSolution = Some r"
  shows "\<forall>t \<in> set (trajectory (solutionMoves r) initState).
           isValid t \<and>
           (leftExplorers t = 0 \<or> leftCannibals t \<le> leftExplorers t) \<and>
           (rightExplorers t = 0 \<or> rightCannibals t \<le> rightExplorers t)"
  using riverSolution_safe unfolding backtrack_init_result [OF assms] list_all_iff .

theorem solution_trajectory_safe_witness:
  "\<exists>r. backtrack 12 initSolution = Some r \<and>
       (\<forall>t \<in> set (trajectory (solutionMoves r) initState).
           isValid t \<and>
           (leftExplorers t = 0 \<or> leftCannibals t \<le> leftExplorers t) \<and>
           (rightExplorers t = 0 \<or> rightCannibals t \<le> rightExplorers t))"
proof -
  from backtrack_12 obtain r where r: "backtrack 12 initSolution = Some r"
    by auto
  from solution_trajectory_safe [OF r] r show ?thesis
    by blast
qed

text \<open>
  Claim C9. \<open>backtrack\<close> terminates from every state within bounds, whatever the set of
  visited states: the state space is finite, every move of \<open>createMoveList\<close> leads to a
  state within bounds again, a call that is not pruned leaves a strictly larger visited
  set, and any recursion depth above the number of unvisited states of the state space is
  enough for the call to return, always with the same result.
\<close>

theorem backtrack_terminates:
  assumes "inBounds (currentState s)"
  shows "finite stateSpace \<and>
         (\<forall>m \<in> set (createMoveList (currentState s)). inBounds (applyMove m (currentState s))) \<and>
         (\<exists>r. (\<forall>n. card (stateSpace - visitedStates s) < n \<longrightarrow> backtrack n s = Some r) \<and>
              visitedStates s \<subseteq> visitedStates r \<and>
              (isValid (currentState s) \<and> currentState s \<notin> visitedStates s
                 \<longrightarrow> visitedStates s \<subset> visitedStates r))"
proof -
  let ?k = "Suc (card (stateSpace - visitedStates s))"
  from backtrack_returns [OF assms, of ?k]
  obtain r where r: "backtrack ?k s = Some r" "returnsFrom s r"
    "isValid (currentState s) \<longrightarrow> currentState s \<in> visitedStates r"
    by auto
  have "\<forall>n. card (stateSpace - visitedStates s) < n \<longrightarrow> backtrack n s = Some r"
    using backtrack_fuel_mono [OF r(1)] by (simp add: Suc_le_eq)
  moreover have "visitedStates s \<subseteq> visitedStates r"
    using r(2) by (simp add: returnsFrom_def)
  moreover have "visitedStates s \<subset> visitedStates r"
    if "isValid (currentState s) \<and> currentState s \<notin> visitedStates s"
    using that r(2,3) by (auto simp: returnsFrom_def)
  ultimately show ?thesis
    using finite_stateSpace applyMove_inBounds [OF assms] by blast
qed

theorem backtrack_terminates_witness:
  "inBounds (currentState initSolution) \<and> isValid (currentState initSolution) \<and>
   currentState initSolution \<notin> visitedStates initSolution \<and>
   \<lparr> cannibalCount = 1, explorerCount = 1 \<rparr> \<in> set (createMoveList (currentState initSolution)) \<and>
   card (stateSpace - visitedStates initSolution) < Suc (card stateSpace) \<and>
   inBounds (applyMove \<lparr> cannibalCount = 1, explorerCount = 1 \<rparr> (currentState initSolution)) \<and>
   (\<exists>r. backtrack (Suc (card stateSpace)) initSolution = Some r \<and>
        visitedStates initSolution \<subset> visitedStates r)"
proof -
  have a: "inBounds (currentState initSolution)"
    by (simp add: initSolution_def initState_inBounds)
  have b: "isValid (currentState initSolution) \<and> currentState initSolution \<notin> visitedStates initSolution"
    by (simp add: initSolution_def initState_def isValid_def TOTAL_CANNIBALS_def TOTAL_EXPLORERS_def)
  have c: "\<lparr> cannibalCount = 1, explorerCount = 1 \<rparr> \<in> set (createMoveList (currentState initSolution))"
    by code_simp
  have d: "card (stateSpace - visitedStates initSolution) < Suc (card stateSpace)"
    by (simp add: initSolution_def)
  from backtrack_terminates [OF a] a b c d show ?thesis
    by blast
qed

section \<open>Knight's tour: properties\<close>

subsection \<open>Bitboards and knight moves\<close>

lemma bit_FileABB: "bit FileABB n \<longleftrightarrow> n < 64 \<and> n mod 8 = 0"
proof (cases "n < 64")
  case True
  have "\<forall>k \<in> set [0..<64]. bit FileABB k \<longleftrightarrow> k mod 8 = 0"
    by code_simp
  with True show ?thesis
    by simp
next
  case False
  then show ?thesis
    using bit_imp_le_length [of FileABB n] by auto
qed

lemma bit_push_bit_word64:
  "bit (push_bit k (w :: Bitboard)) n \<longleftrightarrow> k \<le> n \<and> n < 64 \<and> bit w (n - k)"
  by (simp add: bit_push_bit_iff)

lemma bit_FileBBB: "bit FileBBB n \<longleftrightarrow> n < 64 \<and> n mod 8 = 1"
  unfolding FileBBB_def bit_push_bit_word64 bit_FileABB by presburger

lemma bit_FileGBB: "bit FileGBB n \<longleftrightarrow> n < 64 \<and> n mod 8 = 6"
  unfolding FileGBB_def bit_push_bit_word64 bit_FileABB by presburger

lemma bit_FileHBB: "bit FileHBB n \<longleftrightarrow> n < 64 \<and> n mod 8 = 7"
  unfolding FileHBB_def bit_push_bit_word64 bit_FileABB by presburger

lemma bit_square: "bit (push_bit sq 1 :: Bitboard) n \<longleftrightarrow> n = sq \<and> sq < 64"
  unfolding bit_push_bit_word64 by (auto simp: bit_1_iff)

lemma bit_shift_up:
  "bit (push_bit k (NOT m AND push_bit sq 1) :: Bitboard) d \<longleftrightarrow>
     d = sq + k \<and> d < 64 \<and> \<not> bit m sq"
  unfolding bit_push_bit_word64 [of k] bit_and_iff bit_not_iff bit_square by auto

lemma bit_shift_down:
  "bit (drop_bit k (NOT m AND push_bit sq 1) :: Bitboard) d \<longleftrightarrow>
     d + k = sq \<and> sq < 64 \<and> \<not> bit m sq"
  unfolding bit_drop_bit_eq bit_and_iff bit_not_iff bit_square by (auto simp: add.commute)

lemma bit_genMoveBoard_offset:
  assumes "sq < 64"
  shows "bit (genMoveBoard visited sq) d \<longleftrightarrow> knightOffset sq d \<and> \<not> bit visited d"
proof -
  have "bit (genMoveBoard visited sq) d \<longleftrightarrow>
      ((d = sq + 15 \<and> d < 64 \<and> \<not> bit FileABB sq) \<or>
       (d = sq + 17 \<and> d < 64 \<and> \<not> bit FileHBB sq) \<or>
       (d = sq + 6 \<and> d < 64 \<and> \<not> bit (FileABB OR FileBBB) sq) \<or>
       (d = sq + 10 \<and> d < 64 \<and> \<not> bit (FileGBB OR FileHBB) sq) \<or>
       (d + 17 = sq \<and> sq < 64 \<and> \<not> bit FileABB sq) \<or>
       (d + 15 = sq \<and> sq < 64 \<and> \<not> bit FileHBB sq) \<or>
       (d + 10 = sq \<and> sq < 64 \<and> \<not> bit (FileABB OR FileBBB) sq) \<or>
       (d + 6 = sq \<and> sq < 64 \<and> \<not> bit (FileGBB OR FileHBB) sq)) \<and> d < 64 \<and> \<not> bit visited d"
    unfolding genMoveBoard_def Let_def bit_and_iff bit_or_iff bit_not_iff [where a = visited]
      bit_shift_up bit_shift_down
    by (auto simp: bit_imp_le_length)
  also have "\<dots> \<longleftrightarrow> knightOffset sq d \<and> \<not> bit visited d"
    using assms unfolding knightOffset_def bit_or_iff bit_FileABB bit_FileBBB bit_FileGBB bit_FileHBB
    by auto
  finally show ?thesis .
qed

lemma knightOffset_targets:
  assumes "knightOffset sq d"
  shows "d \<in> set [sq + 15, sq + 17, sq + 6, sq + 10, sq - 17, sq - 15, sq - 10, sq - 6]"
  using assms by (auto simp: knightOffset_def)

lemma knightOffset_imp_knightMove:
  assumes "sq < 64" and "knightOffset sq d"
  shows "knightMove sq d"
proof -
  have "\<forall>s \<in> set [0..<64].
          \<forall>t \<in> set [s + 15, s + 17, s + 6, s + 10, s - 17, s - 15, s - 10, s - 6].
            knightOffset s t \<longrightarrow> knightMove s t"
    by code_simp
  with assms(1) have "\<forall>t \<in> set [sq + 15, sq + 17, sq + 6, sq + 10, sq - 17, sq - 15, sq - 10, sq - 6].
      knightOffset sq t \<longrightarrow> knightMove sq t"
    by (metis atLeastLessThan_iff le0 set_upt)
  with assms(2) knightOffset_targets [OF assms(2)] show ?thesis
    by blast
qed

lemma knightMove_imp_knightOffset:
  assumes "knightMove sq d"
  shows "knightOffset sq d"
proof -
  define r c r' c' where "r = sq div 8" and "c = sq mod 8" and "r' = d div 8" and "c' = d mod 8"
  have sq: "sq = r * 8 + c" and d: "d = r' * 8 + c'"
    by (simp_all add: r_def c_def r'_def c'_def)
  have b: "c < 8" "c' < 8" "r < 8" "r' < 8"
    using assms by (auto simp: r_def c_def r'_def c'_def knightMove_def)
  from assms have
    "((r' = r + 1 \<or> r = r' + 1) \<and> (c' = c + 2 \<or> c = c' + 2)) \<or>
     ((r' = r + 2 \<or> r = r' + 2) \<and> (c' = c + 1 \<or> c = c' + 1))"
    unfolding knightMove_def getRow_def getColumn_def r_def [symmetric] c_def [symmetric]
      r'_def [symmetric] c'_def [symmetric]
    by (auto simp: abs_if split: if_splits)
  then show ?thesis
    using b unfolding sq d knightOffset_def
    by (elim disjE conjE; simp; presburger)
qed

lemma knightMove_iff_offset: "sq < 64 \<Longrightarrow> knightMove sq d \<longleftrightarrow> knightOffset sq d"
  using knightOffset_imp_knightMove knightMove_imp_knightOffset by blast

lemma bit_genMoveBoard:
  assumes "sq < 64"
  shows "bit (genMoveBoard visited sq) d \<longleftrightarrow> knightMove sq d \<and> \<not> bit visited d"
  using assms by (simp add: bit_genMoveBoard_offset knightMove_iff_offset)

subsection \<open>The lowest set bit\<close>

lemma find_filter:
  assumes "distinct xs" and "List.find P xs = Some x"
  shows "filter P xs = x # filter (\<lambda>y. P y \<and> y \<noteq> x) xs"
  using assms
proof (induction xs)
  case Nil
  then show ?case by simp
next
  case (Cons a xs)
  show ?case
  proof (cases "P a")
    case True
    with Cons.prems have "x = a" and "a \<notin> set xs"
      by simp_all
    then have "filter P xs = filter (\<lambda>y. P y \<and> y \<noteq> x) xs"
      by (intro filter_cong) auto
    with True \<open>x = a\<close> show ?thesis
      by simp
  next
    case False
    with Cons show ?thesis
      by simp
  qed
qed

lemma bit_popBit: "bit (popBit b n) m \<longleftrightarrow> bit b m \<and> m \<noteq> n"
  unfolding popBit_def bit_and_iff bit_not_iff bit_square
  by (auto dest: bit_imp_le_length)

lemma bit_setBit: "bit (setBit b n) m \<longleftrightarrow> bit b m \<or> (m = n \<and> n < 64)"
  unfolding setBit_def bit_or_iff bit_square by simp

lemma squaresOf_popLsb:
  assumes "b \<noteq> 0"
  shows "squaresOf b = lsb b # squaresOf (popBit b (lsb b))"
proof -
  from lsb_bit [OF assms] have "List.find (bit b) [0..<64] \<noteq> None"
    by (auto simp: find_None_iff)
  then have "List.find (bit b) [0..<64] = Some (lsb b)"
    by (auto simp: lsb_def)
  then have "filter (bit b) [0..<64] = lsb b # filter (\<lambda>y. bit b y \<and> y \<noteq> lsb b) [0..<64]"
    by (intro find_filter) simp_all
  moreover have "bit (popBit b (lsb b)) = (\<lambda>y. bit b y \<and> y \<noteq> lsb b)"
    by (rule ext) (rule bit_popBit)
  ultimately show ?thesis
    by (simp add: squaresOf_def)
qed

lemma squaresOf_0: "squaresOf 0 = []"
  by (simp add: squaresOf_def)

lemma set_squaresOf: "set (squaresOf b) = {n. bit b n}"
  by (auto simp: squaresOf_def dest: bit_imp_le_length)

lemma distinct_squaresOf: "distinct (squaresOf b)"
  by (simp add: squaresOf_def)

lemma sorted_squaresOf: "sorted_wrt (<) (squaresOf b)"
  unfolding squaresOf_def by (intro sorted_wrt_filter) (simp add: sorted_wrt_upt)

lemma genListLoop_insertAll:
  "genListLoop visited attacks count moves = insertAll visited (squaresOf attacks) count moves"
proof (induction visited attacks count moves rule: genListLoop.induct)
  case (1 visited attacks count moves)
  show ?case
  proof (cases "attacks = 0")
    case True
    then show ?thesis
      by (subst genListLoop.simps) (simp add: squaresOf_0)
  next
    case False
    have p: "popLsb attacks = (lsb attacks, popBit attacks (lsb attacks))"
      by (simp add: popLsb_def popBit_def Let_def)
    show ?thesis
      using False "1.IH" [OF False p [symmetric]]
      by (subst genListLoop.simps, subst squaresOf_popLsb [OF False])
         (simp add: p split: sum.splits)
  qed
qed

subsection \<open>One insertion\<close>

lemma insertMove_split:
  assumes "length L + length R = 8" and "R \<noteq> []"
  shows "\<exists>L1 L2. L = L1 @ L2 \<and> (\<forall>y \<in> set L2. snd newSq < snd y) \<and>
           (L1 = [] \<or> snd (last L1) \<le> snd newSq) \<and>
           insertMove (length L) newSq (L @ R) = Inr (L1 @ newSq # L2 @ tl R)"
  using assms
proof (induction L arbitrary: R rule: rev_induct)
  case Nil
  then show ?case
    by (cases R) simp_all
next
  case (snoc y L)
  from snoc.prems obtain r R' where R: "R = r # R'"
    by (cases R) auto
  from snoc.prems have len: "\<not> 8 \<le> Suc (length L)"
    by (cases R) auto
  have nth: "((L @ [y]) @ R) ! length L = y"
    by (simp add: nth_append)
  show ?case
  proof (cases "snd y > snd newSq")
    case True
    have upd: "((L @ [y]) @ R)[Suc (length L) := y] = L @ (y # y # R')"
      by (simp add: R list_update_append)
    have "\<exists>L1 L2. L = L1 @ L2 \<and> (\<forall>y \<in> set L2. snd newSq < snd y) \<and>
           (L1 = [] \<or> snd (last L1) \<le> snd newSq) \<and>
           insertMove (length L) newSq (L @ (y # y # R')) = Inr (L1 @ newSq # L2 @ tl (y # y # R'))"
      by (rule snoc.IH) (use snoc.prems(1) in \<open>simp_all add: R\<close>)
    then obtain L1 L2 where
      s: "L = L1 @ L2" "\<forall>y \<in> set L2. snd newSq < snd y" "L1 = [] \<or> snd (last L1) \<le> snd newSq"
        "insertMove (length L) newSq (L @ (y # y # R')) = Inr (L1 @ newSq # L2 @ tl (y # y # R'))"
      by blast
    have "insertMove (length (L @ [y])) newSq ((L @ [y]) @ R) = Inr (L1 @ newSq # (L2 @ [y]) @ tl R)"
      using True len s(4) nth upd by (simp add: R)
    moreover have "L @ [y] = L1 @ (L2 @ [y])"
      using s(1) by simp
    moreover have "\<forall>z \<in> set (L2 @ [y]). snd newSq < snd z"
      using s(2) True by simp
    ultimately show ?thesis
      using s(3) by blast
  next
    case False
    have upd: "((L @ [y]) @ R)[Suc (length L) := newSq] = (L @ [y]) @ newSq # R'"
      by (simp add: R list_update_append)
    have "insertMove (length (L @ [y])) newSq ((L @ [y]) @ R) = Inr ((L @ [y]) @ newSq # [] @ tl R)"
      using False len nth upd by (simp add: R)
    moreover have "snd (last (L @ [y])) \<le> snd newSq"
      using False by simp
    ultimately show ?thesis
      by (intro exI [of _ "L @ [y]"] exI [of _ "[]"]) simp
  qed
qed

lemma sorted_insert_between:
  assumes "sorted_wrt degreeBefore (L1 @ L2)"
    and "\<forall>x \<in> set (L1 @ L2). fst x < fst newSq"
    and "\<forall>y \<in> set L2. snd newSq < snd y"
    and "L1 = [] \<or> snd (last L1) \<le> snd newSq"
  shows "sorted_wrt degreeBefore (L1 @ newSq # L2)"
proof -
  have "degreeBefore x newSq" if x: "x \<in> set L1" for x
  proof -
    from x have ne: "L1 \<noteq> []" by auto
    with assms(4) have l: "snd (last L1) \<le> snd newSq" by simp
    have "snd x \<le> snd (last L1)"
    proof (cases "x = last L1")
      case True
      then show ?thesis by simp
    next
      case False
      from ne have L1: "L1 = butlast L1 @ [last L1]" by simp
      with x False have "x \<in> set (butlast L1)"
        by (metis Un_iff empty_iff empty_set insert_iff list.simps(15) set_append)
      moreover from assms(1) have "sorted_wrt degreeBefore L1"
        by (simp add: sorted_wrt_append)
      then have "sorted_wrt degreeBefore (butlast L1 @ [last L1])"
        using L1 by simp
      ultimately have "degreeBefore x (last L1)"
        by (simp add: sorted_wrt_append)
      then show ?thesis by (auto simp: degreeBefore_def)
    qed
    with l have "snd x \<le> snd newSq" by simp
    moreover from assms(2) x have "fst x < fst newSq" by simp
    ultimately show ?thesis by (auto simp: degreeBefore_def)
  qed
  moreover have "degreeBefore newSq y" if "y \<in> set L2" for y
    using that assms(3) by (simp add: degreeBefore_def)
  ultimately show ?thesis
    using assms(1) by (auto simp: sorted_wrt_append)
qed

subsection \<open>The whole list\<close>

lemma insertAll_sorted:
  assumes "sorted_wrt (<) ds" and "\<forall>x \<in> set L. \<forall>d \<in> set ds. fst x < d"
    and "sorted_wrt degreeBefore L" and "length L + length ds \<le> 8"
  shows "\<exists>L'. insertAll visited ds (length L) (L @ replicate (8 - length L) s) =
                 Inr (L' @ replicate (8 - length L') s) \<and>
              length L' = length L + length ds \<and>
              set L' = set L \<union> (\<lambda>d. (d, bitCount (genMoveBoard visited d))) ` set ds \<and>
              sorted_wrt degreeBefore L'"
  using assms
proof (induction ds arbitrary: L)
  case Nil
  then show ?case by (intro exI [of _ L]) simp
next
  case (Cons d ds)
  let ?new = "(d, bitCount (genMoveBoard visited d))"
  let ?R = "replicate (8 - length L) s"
  from Cons.prems(4) have lt: "length L < 8"
    by simp
  then have "length L + length ?R = 8" and "?R \<noteq> []"
    by simp_all
  from insertMove_split [OF this, of ?new] obtain L1 L2 where
    s: "L = L1 @ L2" "\<forall>y \<in> set L2. snd ?new < snd y" "L1 = [] \<or> snd (last L1) \<le> snd ?new"
      "insertMove (length L) ?new (L @ ?R) = Inr (L1 @ ?new # L2 @ tl ?R)"
    by blast
  let ?L = "L1 @ ?new # L2"
  have len: "length ?L = Suc (length L)"
    using s(1) by simp
  have tl: "tl ?R = replicate (8 - length ?L) s"
    using lt len by (cases "8 - length L") simp_all
  have sorted: "sorted_wrt degreeBefore ?L"
    using Cons.prems(2,3) s(2,3) unfolding s(1) by (intro sorted_insert_between) auto
  have "\<forall>x \<in> set ?L. \<forall>d' \<in> set ds. fst x < d'"
    using Cons.prems(1,2) s(1) by auto
  moreover have "sorted_wrt (<) ds"
    using Cons.prems(1) by simp
  moreover have "length ?L + length ds \<le> 8"
    using Cons.prems(4) len by simp
  ultimately obtain L' where
    L': "insertAll visited ds (length ?L) (?L @ replicate (8 - length ?L) s) =
           Inr (L' @ replicate (8 - length L') s)"
      "length L' = length ?L + length ds"
      "set L' = set ?L \<union> (\<lambda>d. (d, bitCount (genMoveBoard visited d))) ` set ds"
      "sorted_wrt degreeBefore L'"
    using Cons.IH [OF _ _ sorted] by blast
  have "insertAll visited (d # ds) (length L) (L @ ?R) = Inr (L' @ replicate (8 - length L') s)"
    using s(4) L'(1) unfolding tl len by simp
  moreover have "length L' = length L + length (d # ds)"
    using L'(2) len by simp
  moreover have "set L' = set L \<union> (\<lambda>d. (d, bitCount (genMoveBoard visited d))) ` set (d # ds)"
    using L'(3) s(1) by auto
  ultimately show ?case
    using L'(4) by blast
qed

lemma length_squaresOf_genMoveBoard:
  assumes "sq < 64"
  shows "length (squaresOf (genMoveBoard visited sq)) \<le> 8"
proof -
  let ?T = "[sq + 15, sq + 17, sq + 6, sq + 10, sq - 17, sq - 15, sq - 10, sq - 6]"
  have "set (squaresOf (genMoveBoard visited sq)) \<subseteq> set ?T"
    using knightOffset_targets [of sq]
    unfolding set_squaresOf bit_genMoveBoard_offset [OF assms] by blast
  then have "card (set (squaresOf (genMoveBoard visited sq))) \<le> card (set ?T)"
    by (intro card_mono) simp_all
  also have "\<dots> \<le> length ?T"
    by (rule card_length)
  finally show ?thesis
    by (simp add: distinct_card [OF distinct_squaresOf])
qed

lemma bitCount_genMoveBoard:
  assumes "d < 64"
  shows "bitCount (genMoveBoard visited d) = onwardMoves visited d"
  unfolding bitCount_def onwardMoves_def
  by (simp add: bit_genMoveBoard [OF assms] cong: filter_cong)

lemma genList_prefix:
  assumes "sq < 64"
  shows "\<exists>L. genList visited sq = Inr (L @ replicate (8 - length L) (noSq, 9)) \<and>
             length L \<le> 8 \<and>
             set L = (\<lambda>d. (d, onwardMoves visited d)) ` {d. knightMove sq d \<and> \<not> bit visited d} \<and>
             sorted_wrt degreeBefore L"
proof -
  let ?ds = "squaresOf (genMoveBoard visited sq)"
  have "sorted_wrt (<) ?ds" and "length ?ds \<le> 8"
    by (simp_all add: sorted_squaresOf length_squaresOf_genMoveBoard [OF assms])
  with insertAll_sorted [of ?ds "[]" visited "(noSq, 9)"] obtain L where
    L: "insertAll visited ?ds 0 (replicate 8 (noSq, 9)) = Inr (L @ replicate (8 - length L) (noSq, 9))"
      "length L = length ?ds"
      "set L = (\<lambda>d. (d, bitCount (genMoveBoard visited d))) ` set ?ds"
      "sorted_wrt degreeBefore L"
    by auto
  have ds: "set ?ds = {d. knightMove sq d \<and> \<not> bit visited d}"
    by (simp add: set_squaresOf bit_genMoveBoard [OF assms])
  have "(\<lambda>d. (d, bitCount (genMoveBoard visited d))) ` set ?ds =
        (\<lambda>d. (d, onwardMoves visited d)) ` set ?ds"
    by (intro image_cong refl) (auto simp: ds knightMove_def bitCount_genMoveBoard)
  with L(3) have "set L = (\<lambda>d. (d, onwardMoves visited d)) ` {d. knightMove sq d \<and> \<not> bit visited d}"
    by (simp add: ds)
  moreover have "length L \<le> 8"
    using L(2) length_squaresOf_genMoveBoard [OF assms] by simp
  moreover have "genList visited sq = Inr (L @ replicate (8 - length L) (noSq, 9))"
    using L(1) by (simp add: genList_def genListLoop_insertAll)
  ultimately show ?thesis
    using L(4) by blast
qed

text \<open>
  Claim C5. For every square \<open>sq\<close> of the board and every visited bitboard, \<open>genList\<close>
  returns a list of 8 slots whose leading \<open>k\<close> slots hold exactly the unvisited knight
  destinations of \<open>sq\<close>, each paired with its onward degree, sorted by non-decreasing
  degree with ties in ascending square index, and whose remaining slots hold the sentinel
  \<open>(noSq, 9)\<close>.
\<close>

theorem genList_sorted:
  assumes "sq < 64"
  shows "\<exists>moves k. genList visited sq = Inr moves \<and> length moves = 8 \<and> k \<le> 8 \<and>
           set (take k moves) =
             (\<lambda>d. (d, onwardMoves visited d)) ` {d. knightMove sq d \<and> \<not> bit visited d} \<and>
           sorted_wrt degreeBefore (take k moves) \<and>
           drop k moves = replicate (8 - k) (noSq, 9)"
proof -
  from genList_prefix [OF assms] obtain L where
    L: "genList visited sq = Inr (L @ replicate (8 - length L) (noSq, 9))" "length L \<le> 8"
      "set L = (\<lambda>d. (d, onwardMoves visited d)) ` {d. knightMove sq d \<and> \<not> bit visited d}"
      "sorted_wrt degreeBefore L"
    by blast
  show ?thesis
    using L by (intro exI [of _ "L @ replicate (8 - length L) (noSq, 9)"] exI [of _ "length L"]) simp
qed

theorem genList_sorted_witness:
  "(0::nat) < 64 \<and>
   (\<exists>moves k. genList 1 0 = Inr moves \<and> length moves = 8 \<and> k \<le> 8 \<and>
      set (take k moves) = (\<lambda>d. (d, onwardMoves 1 d)) ` {d. knightMove 0 d \<and> \<not> bit (1 :: Bitboard) d} \<and>
      sorted_wrt degreeBefore (take k moves) \<and>
      drop k moves = replicate (8 - k) (noSq, 9))"
  using genList_sorted [of 0 1] by simp

subsection \<open>Backtracking restores the board and the path\<close>

lemma genList_entries:
  assumes "sq < 64" and "genList visited sq = Inr moves" and "j < 8"
    and "fst (moves ! j) \<noteq> noSq"
  shows "knightMove sq (fst (moves ! j)) \<and> \<not> bit visited (fst (moves ! j))"
proof -
  from genList_prefix [OF assms(1), of visited] assms(2) obtain L where
    L: "moves = L @ replicate (8 - length L) (noSq, 9)" "length L \<le> 8"
      "set L = (\<lambda>d. (d, onwardMoves visited d)) ` {d. knightMove sq d \<and> \<not> bit visited d}"
    by auto
  have "j < length L"
  proof (rule ccontr)
    assume "\<not> j < length L"
    with assms(3) have "moves ! j = (noSq, 9)"
      unfolding L(1) by (simp add: nth_append)
    with assms(4) show False by simp
  qed
  then have "moves ! j \<in> set L"
    unfolding L(1) by (simp add: nth_append)
  then show ?thesis
    unfolding L(3) by auto
qed

lemma popBit_setBit:
  assumes "\<not> bit b sq"
  shows "popBit (setBit b sq) sq = b"
proof (rule bit_eqI)
  fix n
  show "bit (popBit (setBit b sq) sq) n \<longleftrightarrow> bit b n"
    using assms by (auto simp: bit_popBit bit_setBit)
qed

lemma makeMove_frame:
  assumes "makeMove n sq st = Some (Inr r)" and "\<not> fullTour r" and "\<not> bit (visitedSqs st) sq"
  shows "visitedSqs r = visitedSqs st \<and> stackSq r = stackSq st"
  using assms
proof (induction n arbitrary: sq st r)
  case 0
  then show ?case by (simp add: makeMove.simps)
next
  case (Suc n)
  note IH = Suc.IH
  have loop: "visitedSqs r' = popBit (visitedSqs t) sq' \<and> stackSq r' = butlast (stackSq t)"
    if "tryMoves n moves i sq' t = Some (Inr r')" and "\<not> fullTour r'"
      and "\<forall>j. i \<le> j \<and> j < 8 \<and> fst (moves ! j) \<noteq> noSq \<longrightarrow> \<not> bit (visitedSqs t) (fst (moves ! j))"
    for moves i sq' t r'
    using that
  proof (induction k \<equiv> "8 - i" arbitrary: i t)
    case 0
    then show ?case
      by (simp add: tryMoves.simps)
  next
    case (Suc k)
    then have i: "i < 8" by simp
    show ?case
    proof (cases "fst (moves ! i) = noSq")
      case True
      with i Suc.prems(1) show ?thesis
        by (auto simp: tryMoves.simps undoSq_def)
    next
      case False
      from Suc.prems(1) i False obtain t' where
        t': "makeMove n (fst (moves ! i)) t = Some (Inr t')"
        and rest: "(if fullTour t' then Some (Inr t') else tryMoves n moves (i + 1) sq' t') = Some (Inr r')"
        by (subst (asm) tryMoves.simps) (auto split: option.splits sum.splits)
      from rest Suc.prems(2) have nf: "\<not> fullTour t'"
        and nxt: "tryMoves n moves (i + 1) sq' t' = Some (Inr r')"
        by (auto split: if_splits)
      from Suc.prems(3) i False have "\<not> bit (visitedSqs t) (fst (moves ! i))"
        by simp
      from IH [OF t' nf this] have eq: "visitedSqs t' = visitedSqs t" "stackSq t' = stackSq t"
        by simp_all
      have "visitedSqs r' = popBit (visitedSqs t') sq' \<and> stackSq r' = butlast (stackSq t')"
        using Suc.hyps(2) Suc.prems(2,3) eq by (intro Suc.hyps(1) [OF _ nxt]) auto
      with eq show ?thesis by simp
    qed
  qed
  let ?st1 = "st\<lparr> totalMoves := totalMoves st + 1, visitedSqs := setBit (visitedSqs st) sq,
                    stackSq := stackSq st @ [sq] \<rparr>"
  from Suc.prems(1) have sq: "sq < 64"
    by (auto simp: makeMove.simps split: if_splits)
  from Suc.prems(1,2) sq have nfull: "visitedSqs ?st1 \<noteq> FullBB"
    by (auto simp: makeMove.simps Let_def split: if_splits)
  from genList_prefix [OF sq] obtain moves where
    moves: "genList (visitedSqs ?st1) sq = Inr moves"
    by blast
  have undo: "visitedSqs (undoSq sq ?st1) = visitedSqs st \<and> stackSq (undoSq sq ?st1) = stackSq st"
    using Suc.prems(3) by (simp add: undoSq_def popBit_setBit)
  show ?case
  proof (cases "fst (moves ! 0) = noSq")
    case True
    with Suc.prems(1) sq nfull moves have "r = undoSq sq ?st1"
      by (simp add: makeMove.simps Let_def)
    with undo show ?thesis by simp
  next
    case False
    with Suc.prems(1) sq nfull moves have "tryMoves n moves 0 sq ?st1 = Some (Inr r)"
      by (simp add: makeMove.simps Let_def)
    moreover have "\<forall>j. 0 \<le> j \<and> j < 8 \<and> fst (moves ! j) \<noteq> noSq
        \<longrightarrow> \<not> bit (visitedSqs ?st1) (fst (moves ! j))"
      using genList_entries [OF sq moves] by blast
    ultimately have "visitedSqs r = popBit (visitedSqs ?st1) sq \<and> stackSq r = butlast (stackSq ?st1)"
      using Suc.prems(2) by (intro loop)
    then show ?thesis
      using Suc.prems(3) by (simp add: popBit_setBit)
  qed
qed

lemma genList_no_moves:
  assumes "genMoveBoard visited sq = 0"
  shows "genList visited sq = Inr (replicate 8 (noSq, 9))"
  using assms by (simp add: genList_def genListLoop.simps)

lemma makeMove_dead_end:
  assumes "\<not> bit (visitedSqs st) sq" and "sq < 64" and "setBit (visitedSqs st) sq \<noteq> FullBB"
    and "genMoveBoard (setBit (visitedSqs st) sq) sq = 0"
  shows "makeMove (Suc n) sq st = Some (Inr (st\<lparr> totalMoves := totalMoves st + 1 \<rparr>))"
  using assms by (simp add: makeMove.simps genList_no_moves undoSq_def popBit_setBit)

text \<open>
  Claim C7. For every unvisited square \<open>sq\<close>: whenever \<open>makeMove(sq)\<close> returns with
  \<open>fullTour\<close> false, \<open>visitedSqs\<close> and \<open>stackSq\<close> are exactly what they were before the
  call. In particular, when every knight destination of \<open>sq\<close> is already visited (and the
  board is not full), the call does return: it only counts the move, clears the bit again
  and pops the path, and the search goes on in the caller.
\<close>

theorem makeMove_backtracks:
  assumes "\<not> bit (visitedSqs st) sq"
  shows "(\<forall>r. makeMove n sq st = Some (Inr r) \<and> \<not> fullTour r
              \<longrightarrow> visitedSqs r = visitedSqs st \<and> stackSq r = stackSq st) \<and>
         (sq < 64 \<and> setBit (visitedSqs st) sq \<noteq> FullBB \<and>
          genMoveBoard (setBit (visitedSqs st) sq) sq = 0
            \<longrightarrow> makeMove (Suc n) sq st = Some (Inr (st\<lparr> totalMoves := totalMoves st + 1 \<rparr>)))"
  using makeMove_frame [OF _ _ assms] makeMove_dead_end [OF assms] by blast

lemma cornerState_dead_end:
  "\<not> bit (visitedSqs cornerState) 0 \<and> setBit (visitedSqs cornerState) 0 \<noteq> FullBB \<and>
   genMoveBoard (setBit (visitedSqs cornerState) 0) 0 = 0"
  by (simp add: cornerState_def setBit_def FullBB_def genMoveBoard_def
      FileABB_def FileBBB_def FileGBB_def FileHBB_def)

theorem makeMove_backtracks_witness:
  "\<not> bit (visitedSqs cornerState) 0 \<and> (0::nat) < 64 \<and>
   setBit (visitedSqs cornerState) 0 \<noteq> FullBB \<and>
   genMoveBoard (setBit (visitedSqs cornerState) 0) 0 = 0 \<and>
   makeMove 1 0 cornerState = Some (Inr (cornerState\<lparr> totalMoves := 4 \<rparr>)) \<and>
   \<not> fullTour (cornerState\<lparr> totalMoves := 4 \<rparr>) \<and>
   visitedSqs (cornerState\<lparr> totalMoves := 4 \<rparr>) = visitedSqs cornerState \<and>
   stackSq (cornerState\<lparr> totalMoves := 4 \<rparr>) = stackSq cornerState"
  using makeMove_backtracks [of cornerState 0 0] cornerState_dead_end
  by (simp add: cornerState_def)

subsection \<open>The two variants of the search\<close>

lemma makeMove_main_eq:
  assumes "\<not> fullTour st"
  shows "makeMove_main n sq st = makeMove n sq st"
  using assms
proof (induction n arbitrary: sq st)
  case 0
  show ?case by (simp add: makeMove.simps makeMove_main.simps)
next
  case (Suc n)
  note IH = Suc.IH
  have loop: "tryMoves_main n moves i sq' t = tryMoves n moves i sq' t"
    if "\<not> fullTour t" for moves i sq' t
    using that
  proof (induction k \<equiv> "8 - i" arbitrary: i t)
    case 0
    then show ?case
      by (simp add: tryMoves.simps tryMoves_main.simps)
  next
    case (Suc k)
    have call: "makeMove_main n (fst (moves ! i)) t = makeMove n (fst (moves ! i)) t"
      using Suc.prems by (rule IH)
    have "tryMoves_main n moves (i + 1) sq' t' = tryMoves n moves (i + 1) sq' t'"
      if "\<not> fullTour t'" for t'
      using Suc.hyps(2) that by (intro Suc.hyps(1)) auto
    then show ?case
      by (subst tryMoves.simps, subst tryMoves_main.simps)
         (simp add: call split: option.splits sum.splits)
  qed
  show ?case
    using Suc.prems loop
    by (simp add: makeMove.simps makeMove_main.simps Let_def split: sum.splits)
qed

text \<open>
  Claim C10. The two variants of the knight's tour behave alike: entered with \<open>fullTour\<close>
  false, as the search is from every starting square, \<open>makeMove\<close> of
  \<open>knights_tour/main.cpp\<close> and \<open>makeMove\<close> of the other file give the same outcome
  for every recursion depth, hence the same final \<open>visitedSqs\<close>, path stack, \<open>fullTour\<close>
  and \<open>totalMoves\<close>; so do the two \<open>backtrack\<close> entry points.
\<close>

theorem tour_variants_equal:
  assumes "\<not> fullTour st"
  shows "makeMove_main n sq st = makeMove n sq st \<and>
         backtrack_tour_main n sq st = backtrack_tour n sq st"
  using assms by (simp add: makeMove_main_eq backtrack_tour_def backtrack_tour_main_def)

theorem tour_variants_equal_witness:
  "\<not> fullTour initBacktrack \<and>
   makeMove_main 64 0 initBacktrack = makeMove 64 0 initBacktrack \<and>
   backtrack_tour_main 64 0 initBacktrack = backtrack_tour 64 0 initBacktrack"
  using tour_variants_equal [of initBacktrack 64 0] by (simp add: initBacktrack_def)

subsection \<open>The tour from a1\<close>

lemma knightTargets_board:
  "\<forall>sq \<in> set [0..<64].
     distinct (knightTargets sq) \<and>
     (\<forall>d \<in> set (knightTargets sq). knightOffset sq d) \<and>
     (\<forall>d \<in> set [sq + 15, sq + 17, sq + 6, sq + 10, sq - 17, sq - 15, sq - 10, sq - 6].
        knightOffset sq d \<longrightarrow> d \<in> set (knightTargets sq))"
  by code_simp

lemma distinct_knightTargets:
  assumes "sq < 64"
  shows "distinct (knightTargets sq)"
  using knightTargets_board assms by simp

lemma set_knightTargets:
  assumes "sq < 64"
  shows "set (knightTargets sq) = {d. knightOffset sq d}"
proof -
  from assms have sq: "sq \<in> set [0..<64]"
    by simp
  have "knightOffset sq d" if "d \<in> set (knightTargets sq)" for d
    using knightTargets_board sq that by blast
  moreover have "d \<in> set (knightTargets sq)" if "knightOffset sq d" for d
    using knightTargets_board sq that knightOffset_targets [OF that] by blast
  ultimately show ?thesis
    by blast
qed

lemma set_freeTargets:
  assumes "sq < 64"
  shows "set (freeTargets visited sq) = {d. knightMove sq d \<and> \<not> bit visited d}"
  using assms by (auto simp: freeTargets_def set_knightTargets knightMove_iff_offset)

lemma onwardMoves_freeTargets:
  assumes "c < 64"
  shows "onwardMoves visited c = length (freeTargets visited c)"
proof -
  have "knightMove c t \<Longrightarrow> t < 64" for t
    by (simp add: knightMove_def)
  then have "set (filter (\<lambda>t. knightMove c t \<and> \<not> bit visited t) [0..<64]) =
      set (freeTargets visited c)"
    unfolding set_freeTargets [OF assms] by auto
  moreover have "distinct (filter (\<lambda>t. knightMove c t \<and> \<not> bit visited t) [0..<64])"
    and "distinct (freeTargets visited c)"
    by (simp_all add: freeTargets_def distinct_knightTargets [OF assms])
  ultimately show ?thesis
    unfolding onwardMoves_def by (metis distinct_card)
qed

lemma degreeBefore_asym: "degreeBefore a b \<Longrightarrow> \<not> degreeBefore b a"
  by (auto simp: degreeBefore_def)

lemma genList_first:
  assumes "sq < 64" and "firstChoice visited sq d"
  shows "\<exists>moves. genList visited sq = Inr moves \<and> fst (moves ! 0) = d \<and> d < 64"
proof -
  from genList_prefix [OF assms(1), of visited] obtain L where
    L: "genList visited sq = Inr (L @ replicate (8 - length L) (noSq, 9))"
      "set L = (\<lambda>d. (d, onwardMoves visited d)) ` {d. knightMove sq d \<and> \<not> bit visited d}"
      "sorted_wrt degreeBefore L"
    by blast
  from assms(2) have d: "knightMove sq d" "\<not> bit visited d"
    by (simp_all add: firstChoice_def set_freeTargets [OF assms(1)])
  then have d64: "d < 64"
    by (simp add: knightMove_def)
  from d have dL: "(d, onwardMoves visited d) \<in> set L"
    unfolding L(2) by blast
  then obtain j where j: "j < length L" "L ! j = (d, onwardMoves visited d)"
    by (auto simp: in_set_conv_nth)
  have "L ! 0 = (d, onwardMoves visited d)"
  proof (rule ccontr)
    assume ne: "L ! 0 \<noteq> (d, onwardMoves visited d)"
    with j have "0 < j" by (cases j) auto
    with j(1) L(3) have before: "degreeBefore (L ! 0) (L ! j)"
      by (simp add: sorted_wrt_iff_nth_less)
    from j(1) have "L ! 0 \<in> set L" by (cases L) auto
    then obtain c where c: "L ! 0 = (c, onwardMoves visited c)" "knightMove sq c" "\<not> bit visited c"
      unfolding L(2) by blast
    from c(2) have c64: "c < 64" by (simp add: knightMove_def)
    from ne c(1) have "c \<noteq> d" by auto
    moreover from c(2,3) have "c \<in> set (freeTargets visited sq)"
      by (simp add: set_freeTargets [OF assms(1)])
    ultimately have "degreeBefore (d, onwardMoves visited d) (c, onwardMoves visited c)"
      using assms(2)
      by (auto simp: firstChoice_def Let_def onwardMoves_freeTargets [OF c64]
          onwardMoves_freeTargets [OF d64])
    with before show False
      unfolding j(2) c(1) by (auto dest: degreeBefore_asym)
  qed
  moreover from j(1) have "(L @ replicate (8 - length L) (noSq, 9)) ! 0 = L ! 0"
    by (cases L) auto
  ultimately show ?thesis
    using L(1) d64 by auto
qed

lemma greedyTour_makeMove:
  assumes "greedyTour (visitedSqs st) p" and "length p \<le> n"
  shows "makeMove n (hd p) st =
           Some (Inr (st\<lparr> totalMoves := totalMoves st + int (length p), visitedSqs := FullBB,
                          stackSq := stackSq st @ p, fullTour := True \<rparr>))"
  using assms
proof (induction p arbitrary: st n)
  case Nil
  then show ?case by simp
next
  case (Cons sq p)
  from Cons.prems(2) obtain m where n: "n = Suc m" and m: "length p \<le> m"
    by (cases n) auto
  let ?st1 = "st\<lparr> totalMoves := totalMoves st + 1, visitedSqs := setBit (visitedSqs st) sq,
                    stackSq := stackSq st @ [sq] \<rparr>"
  show ?case
  proof (cases p)
    case Nil
    with Cons.prems(1) show ?thesis
      by (simp add: n makeMove.simps)
  next
    case (Cons d q)
    from Cons.prems(1) Cons have sq: "sq < 64" and nfull: "setBit (visitedSqs st) sq \<noteq> FullBB"
      and first: "firstChoice (setBit (visitedSqs st) sq) sq d"
      and rest: "greedyTour (visitedSqs ?st1) p"
      by simp_all
    from genList_first [OF sq first] obtain moves where
      moves: "genList (setBit (visitedSqs st) sq) sq = Inr moves" "fst (moves ! 0) = d" "d < 64"
      by blast
    have call: "makeMove m d ?st1 =
        Some (Inr (?st1\<lparr> totalMoves := totalMoves ?st1 + int (length p), visitedSqs := FullBB,
                          stackSq := stackSq ?st1 @ p, fullTour := True \<rparr>))"
      using Cons.IH [OF rest m] Cons by simp
    have "tryMoves m moves 0 sq ?st1 =
        Some (Inr (?st1\<lparr> totalMoves := totalMoves ?st1 + int (length p), visitedSqs := FullBB,
                          stackSq := stackSq ?st1 @ p, fullTour := True \<rparr>))"
      using moves(2,3) call by (subst tryMoves.simps) (simp add: noSq_def)
    then show ?thesis
      using sq nfull moves by (simp add: n makeMove.simps noSq_def)
  qed
qed

lemma greedyTour_tourA1: "greedyTour 0 tourA1"
  by (simp add: tourA1_def setBit_def FullBB_def firstChoice_def freeTargets_def
      knightTargets_def degreeBefore_def)

lemma backtrack_tour_a1:
  assumes "64 \<le> n"
  shows "backtrack_tour n 0 initBacktrack =
           Some (Inr \<lparr> visitedSqs = FullBB, stackSq = tourA1, fullTour = True,
                       totalMoves = 64, startingSq = 0 \<rparr>)"
proof -
  have "length tourA1 = 64" and "hd tourA1 = 0"
    by (simp_all add: tourA1_def)
  with greedyTour_makeMove [of "initBacktrack\<lparr> startingSq := 0 \<rparr>" tourA1 n] assms
  show ?thesis
    by (simp add: backtrack_tour_def initBacktrack_def greedyTour_tourA1)
qed

text \<open>
  Claim C4. The search from the starting square a1 (index 0) on the empty board returns
  for every recursion depth of at least 64, with \<open>fullTour\<close> true and a path stack of 64
  squares; it visits 64 nodes, that is, it never backtracks.
\<close>

theorem tour_from_a1:
  assumes "64 \<le> n"
  shows "\<exists>r. backtrack_tour n 0 initBacktrack = Some (Inr r) \<and> fullTour r \<and>
             length (stackSq r) = 64 \<and> totalMoves r = 64"
  using backtrack_tour_a1 [OF assms] by (simp add: tourA1_def)

theorem tour_from_a1_witness:
  "(64::nat) \<le> 64 \<and>
   (\<exists>r. backtrack_tour 64 0 initBacktrack = Some (Inr r) \<and> fullTour r \<and>
        length (stackSq r) = 64 \<and> totalMoves r = 64)"
  using tour_from_a1 [of 64] by simp

subsection \<open>A completed search holds a knight's tour\<close>

lemma tourInv_frame:
  assumes "tourInv t" and "visitedSqs t' = visitedSqs t" and "stackSq t' = stackSq t"
  shows "tourInv t'"
  using assms by (simp add: tourInv_def)

lemma tourInv_push:
  assumes "tourInv st" and "sq < 64" and "\<not> bit (visitedSqs st) sq"
    and "stackSq st = [] \<or> knightMove (last (stackSq st)) sq"
  shows "tourInv (st\<lparr> totalMoves := m, visitedSqs := setBit (visitedSqs st) sq,
                     stackSq := stackSq st @ [sq] \<rparr>)"
  using assms by (auto simp: tourInv_def bit_setBit successively_append_iff)

lemma makeMove_success:
  assumes "makeMove n sq st = Some (Inr r)" and "fullTour r" and "\<not> fullTour st"
    and "tourInv st" and "\<not> bit (visitedSqs st) sq"
    and "stackSq st = [] \<or> knightMove (last (stackSq st)) sq"
  shows "visitedSqs r = FullBB \<and> tourInv r \<and> (\<exists>rest. stackSq r = stackSq st @ sq # rest)"
  using assms
proof (induction n arbitrary: sq st r)
  case 0
  then show ?case by (simp add: makeMove.simps)
next
  case (Suc n)
  note IH = Suc.IH
  have loop: "visitedSqs r' = FullBB \<and> tourInv r' \<and> (\<exists>rest. stackSq r' = stackSq t @ rest)"
    if "tryMoves n moves i sq' t = Some (Inr r')" and "fullTour r'" and "\<not> fullTour t"
      and "tourInv t" and "stackSq t \<noteq> []" and "last (stackSq t) = sq'"
      and "\<forall>j. i \<le> j \<and> j < 8 \<and> fst (moves ! j) \<noteq> noSq
             \<longrightarrow> knightMove sq' (fst (moves ! j)) \<and> \<not> bit (visitedSqs t) (fst (moves ! j))"
    for moves i sq' t r'
    using that
  proof (induction k \<equiv> "8 - i" arbitrary: i t)
    case 0
    then show ?case
      by (simp add: tryMoves.simps)
  next
    case (Suc k)
    then have i: "i < 8" by simp
    show ?case
    proof (cases "fst (moves ! i) = noSq")
      case True
      with i Suc.prems(1,2,3) show ?thesis
        by (auto simp: tryMoves.simps undoSq_def)
    next
      case False
      from Suc.prems(1) i False obtain t' where
        t': "makeMove n (fst (moves ! i)) t = Some (Inr t')"
        and rest: "(if fullTour t' then Some (Inr t') else tryMoves n moves (i + 1) sq' t') = Some (Inr r')"
        by (subst (asm) tryMoves.simps) (auto split: option.splits sum.splits)
      from Suc.prems(7) i False have d: "knightMove sq' (fst (moves ! i))"
        "\<not> bit (visitedSqs t) (fst (moves ! i))"
        by simp_all
      show ?thesis
      proof (cases "fullTour t'")
        case True
        with rest have "r' = t'" by simp
        moreover from d(1) Suc.prems(5,6) have "stackSq t = [] \<or> knightMove (last (stackSq t)) (fst (moves ! i))"
          by simp
        ultimately show ?thesis
          using IH [OF t' True Suc.prems(3,4) d(2)] by auto
      next
        case nf: False
        with rest have nxt: "tryMoves n moves (i + 1) sq' t' = Some (Inr r')"
          by simp
        from makeMove_frame [OF t' nf d(2)] have eq: "visitedSqs t' = visitedSqs t" "stackSq t' = stackSq t"
          by simp_all
        have k: "k = 8 - (i + 1)"
          using Suc.hyps(2) by simp
        have inv': "tourInv t'"
          using Suc.prems(4) eq by (rule tourInv_frame)
        have ne': "stackSq t' \<noteq> []" and la': "last (stackSq t') = sq'"
          using Suc.prems(5,6) eq by simp_all
        have cands': "\<forall>j. i + 1 \<le> j \<and> j < 8 \<and> fst (moves ! j) \<noteq> noSq
             \<longrightarrow> knightMove sq' (fst (moves ! j)) \<and> \<not> bit (visitedSqs t') (fst (moves ! j))"
          using Suc.prems(7) eq by simp
        have "visitedSqs r' = FullBB \<and> tourInv r' \<and> (\<exists>rest. stackSq r' = stackSq t' @ rest)"
          by (rule Suc.hyps(1) [OF k nxt Suc.prems(2) nf inv' ne' la' cands'])
        with eq show ?thesis by simp
      qed
    qed
  qed
  let ?st1 = "st\<lparr> totalMoves := totalMoves st + 1, visitedSqs := setBit (visitedSqs st) sq,
                    stackSq := stackSq st @ [sq] \<rparr>"
  from Suc.prems(1) have sq: "sq < 64"
    by (auto simp: makeMove.simps split: if_splits)
  have inv1: "tourInv ?st1"
    using Suc.prems(4) sq Suc.prems(5,6) by (rule tourInv_push)
  show ?case
  proof (cases "visitedSqs ?st1 = FullBB")
    case True
    with Suc.prems(1) sq have "r = ?st1\<lparr> fullTour := True \<rparr>"
      by (simp add: makeMove.simps Let_def)
    with True inv1 show ?thesis
      by (simp add: tourInv_def)
  next
    case nfull: False
    from genList_prefix [OF sq] obtain moves where
      moves: "genList (visitedSqs ?st1) sq = Inr moves"
      by blast
    show ?thesis
    proof (cases "fst (moves ! 0) = noSq")
      case True
      with Suc.prems(1) sq nfull moves have "r = undoSq sq ?st1"
        by (simp add: makeMove.simps Let_def)
      with Suc.prems(2,3) show ?thesis
        by (simp add: undoSq_def)
    next
      case False
      with Suc.prems(1) sq nfull moves have tm: "tryMoves n moves 0 sq ?st1 = Some (Inr r)"
        by (simp add: makeMove.simps Let_def)
      have cands: "\<forall>j. 0 \<le> j \<and> j < 8 \<and> fst (moves ! j) \<noteq> noSq
          \<longrightarrow> knightMove sq (fst (moves ! j)) \<and> \<not> bit (visitedSqs ?st1) (fst (moves ! j))"
        using genList_entries [OF sq moves] by blast
      have nf1: "\<not> fullTour ?st1" and ne: "stackSq ?st1 \<noteq> []" and la: "last (stackSq ?st1) = sq"
        using Suc.prems(3) by simp_all
      have "visitedSqs r = FullBB \<and> tourInv r \<and> (\<exists>rest. stackSq r = stackSq ?st1 @ rest)"
        by (rule loop [OF tm Suc.prems(2) nf1 inv1 ne la cands])
      then show ?thesis by auto
    qed
  qed
qed

lemma bit_FullBB: "bit FullBB k \<longleftrightarrow> k < 64"
proof -
  have "FullBB = - 1"
    by (simp add: FullBB_def)
  moreover have "bit (- 1 :: Bitboard) k \<longleftrightarrow> k < 64"
    by simp
  ultimately show ?thesis
    by (simp only:)
qed

text \<open>
  Claim C3. For every starting square in 0..63: if the search returns with \<open>fullTour\<close>
  true, the path stack has exactly 64 entries, every square index 0..63 appears in it
  exactly once, the first entry is the starting square, and every two consecutive entries
  are a legal knight move apart.
\<close>

theorem full_tour_path:
  assumes "sq < 64" and "backtrack_tour n sq initBacktrack = Some (Inr r)" and "fullTour r"
  shows "length (stackSq r) = 64 \<and> distinct (stackSq r) \<and> set (stackSq r) = {0..<64} \<and>
         hd (stackSq r) = sq \<and>
         (\<forall>i. Suc i < length (stackSq r) \<longrightarrow> knightMove (stackSq r ! i) (stackSq r ! Suc i))"
proof -
  let ?st = "initBacktrack\<lparr> startingSq := sq \<rparr>"
  have "makeMove n sq ?st = Some (Inr r)"
    using assms(2) by (simp add: backtrack_tour_def)
  moreover have "\<not> fullTour ?st" and "tourInv ?st" and "\<not> bit (visitedSqs ?st) sq"
    and "stackSq ?st = [] \<or> knightMove (last (stackSq ?st)) sq"
    by (simp_all add: initBacktrack_def tourInv_def)
  ultimately have r: "visitedSqs r = FullBB" "tourInv r" "\<exists>rest. stackSq r = stackSq ?st @ sq # rest"
    using makeMove_success [OF _ assms(3)] by blast+
  from r(2) have "k \<in> set (stackSq r) \<longleftrightarrow> bit (visitedSqs r) k" for k
    by (simp add: tourInv_def)
  then have set: "set (stackSq r) = {0..<64}"
    unfolding set_eq_iff r(1) bit_FullBB by simp
  from r(2) have dist: "distinct (stackSq r)" and succ: "successively knightMove (stackSq r)"
    by (simp_all add: tourInv_def)
  from dist set have "length (stackSq r) = 64"
    by (metis distinct_card card_atLeastLessThan diff_zero)
  moreover from r(3) have "hd (stackSq r) = sq"
    by (auto simp: initBacktrack_def)
  ultimately show ?thesis
    using dist set succ by (simp add: successively_conv_nth)
qed

theorem full_tour_path_witness:
  "(0::nat) < 64 \<and>
   (\<exists>r. backtrack_tour 64 0 initBacktrack = Some (Inr r) \<and> fullTour r \<and>
        length (stackSq r) = 64 \<and> distinct (stackSq r) \<and> set (stackSq r) = {0..<64} \<and>
        hd (stackSq r) = 0 \<and>
        (\<forall>i. Suc i < length (stackSq r) \<longrightarrow> knightMove (stackSq r ! i) (stackSq r ! Suc i)))"
proof -
  let ?r = "\<lparr> visitedSqs = FullBB, stackSq = tourA1, fullTour = True,
              totalMoves = 64, startingSq = 0 \<rparr>"
  have run: "backtrack_tour 64 0 initBacktrack = Some (Inr ?r)"
    by (rule backtrack_tour_a1) simp
  have "fullTour ?r" by simp
  from full_tour_path [OF _ run this] run show ?thesis
    by simp
qed

subsection \<open>The board of the lookahead\<close>

lemma makeMove_movesOf:
  assumes "sq < 64" and "setBit (visitedSqs st) sq \<noteq> FullBB"
  shows "makeMove (Suc n) sq st =
     (let st1 = st\<lparr> totalMoves := totalMoves st + 1, visitedSqs := setBit (visitedSqs st) sq,
                      stackSq := stackSq st @ [sq] \<rparr> in
      case movesOf st sq of
        Inl e \<Rightarrow> Some (Inl e)
      | Inr moves \<Rightarrow> if fst (moves ! 0) = noSq then Some (Inr (undoSq sq st1))
                      else tryMoves n moves 0 sq st1)"
  using assms by (simp add: makeMove.simps movesOf_def Let_def)

lemma knightMove_sym: "knightMove a b \<Longrightarrow> knightMove b a"
  by (auto simp: knightMove_def)

lemma onwardMoves_card:
  "onwardMoves visited d = card {t. knightMove d t \<and> \<not> bit visited t}"
proof -
  have "set (filter (\<lambda>t. knightMove d t \<and> \<not> bit visited t) [0..<64]) =
      {t. knightMove d t \<and> \<not> bit visited t}"
    by (auto simp: knightMove_def)
  moreover have "distinct (filter (\<lambda>t. knightMove d t \<and> \<not> bit visited t) [0..<64])"
    by simp
  ultimately show ?thesis
    unfolding onwardMoves_def by (metis distinct_card)
qed

lemma onwardMoves_setBit:
  assumes "knightMove d sq" and "\<not> bit visited sq"
  shows "onwardMoves visited d = onwardMoves (setBit visited sq) d + 1"
proof -
  let ?A = "{t. knightMove d t \<and> \<not> bit visited t}"
  have fin: "finite ?A"
    by (rule finite_subset [of _ "{..<64}"]) (auto simp: knightMove_def)
  from assms have sq: "sq < 64" and mem: "sq \<in> ?A"
    by (simp_all add: knightMove_def)
  have "{t. knightMove d t \<and> \<not> bit (setBit visited sq) t} = ?A - {sq}"
    using sq by (auto simp: bit_setBit)
  then have "onwardMoves (setBit visited sq) d = card (?A - {sq})"
    by (simp add: onwardMoves_card)
  also have "\<dots> + 1 = card ?A"
    using card_Suc_Diff1 [OF fin mem] by simp
  finally show ?thesis
    by (simp add: onwardMoves_card)
qed

lemma movesOf_entry:
  assumes "sq < 64" and "movesOf st sq = Inr moves" and "(d, g) \<in> set moves" and "d \<noteq> noSq"
  shows "knightMove sq d \<and> g = onwardMoves (setBit (visitedSqs st) sq) d"
proof -
  from genList_prefix [OF assms(1), of "setBit (visitedSqs st) sq"] assms(2) obtain L where
    L: "moves = L @ replicate (8 - length L) (noSq, 9)"
      "set L = (\<lambda>d. (d, onwardMoves (setBit (visitedSqs st) sq) d)) `
                 {d. knightMove sq d \<and> \<not> bit (setBit (visitedSqs st) sq) d}"
    unfolding movesOf_def by auto
  from assms(3,4) have "(d, g) \<in> set L"
    unfolding L(1) by auto
  then show ?thesis
    unfolding L(2) by auto
qed

lemma movesOf_a1:
  "movesOf initBacktrack 0 =
     Inr [(10, 5), (17, 5), (64, 9), (64, 9), (64, 9), (64, 9), (64, 9), (64, 9)]"
  by code_simp

lemma onwardMoves_c2: "onwardMoves (visitedSqs initBacktrack) 10 = 6"
  by code_simp

text \<open>
  Claim C2, as stated, fails: \<open>makeMove(a1)\<close> on the empty board pairs the candidate c2
  (index 10) with the degree 5, while c2 has 6 legal knight moves on the board before a1
  is marked; a1 is one of them and is not counted.
\<close>

theorem lookahead_degree_counterexample:
  "movesOf initBacktrack 0 =
     Inr [(10, 5), (17, 5), (64, 9), (64, 9), (64, 9), (64, 9), (64, 9), (64, 9)] \<and>
   knightMove 10 0 \<and> \<not> bit (visitedSqs initBacktrack) 0 \<and>
   onwardMoves (visitedSqs initBacktrack) 10 = 6"
proof -
  have "knightMove 10 0"
    by code_simp
  moreover have "\<not> bit (visitedSqs initBacktrack) 0"
    by (simp add: initBacktrack_def)
  ultimately show ?thesis
    using movesOf_a1 onwardMoves_c2 by simp
qed

text \<open>
  Claim C2, amended. For every current square \<open>sq\<close> and every candidate destination \<open>d\<close>
  in the move list of \<open>makeMove(sq)\<close>, the degree paired with \<open>d\<close> is the number of legal
  knight moves from \<open>d\<close> to squares unvisited on the board after \<open>sq\<close> has been marked
  visited. The square \<open>sq\<close> is a knight move away from \<open>d\<close> and is not counted: when \<open>sq\<close>
  was unvisited before the call, the count on the board before the marking is larger by
  one.
\<close>

theorem lookahead_degree:
  assumes "sq < 64" and "movesOf st sq = Inr moves" and "(d, g) \<in> set moves" and "d \<noteq> noSq"
  shows "g = onwardMoves (setBit (visitedSqs st) sq) d \<and> knightMove d sq \<and>
         bit (setBit (visitedSqs st) sq) sq \<and>
         (\<not> bit (visitedSqs st) sq \<longrightarrow> onwardMoves (visitedSqs st) d = g + 1)"
proof -
  from movesOf_entry [OF assms] have e: "knightMove sq d" "g = onwardMoves (setBit (visitedSqs st) sq) d"
    by simp_all
  from e(1) have sym: "knightMove d sq"
    by (rule knightMove_sym)
  have "onwardMoves (visitedSqs st) d = g + 1" if "\<not> bit (visitedSqs st) sq"
    unfolding e(2) using sym that by (rule onwardMoves_setBit)
  with e(2) sym assms(1) show ?thesis
    by (simp add: bit_setBit)
qed

theorem lookahead_degree_witness:
  "(0::nat) < 64 \<and>
   movesOf initBacktrack 0 =
     Inr [(10, 5), (17, 5), (64, 9), (64, 9), (64, 9), (64, 9), (64, 9), (64, 9)] \<and>
   (10, 5) \<in> set [(10, 5), (17, 5), (64, 9), (64, 9), (64, 9), (64, 9), (64, 9), (64 :: nat, 9 :: nat)] \<and>
   (10::nat) \<noteq> noSq \<and> \<not> bit (visitedSqs initBacktrack) 0 \<and>
   5 = onwardMoves (setBit (visitedSqs initBacktrack) 0) 10 \<and> knightMove 10 0 \<and>
   onwardMoves (visitedSqs initBacktrack) 10 = 5 + 1"
proof -
  have a: "(10, 5) \<in> set [(10, 5), (17, 5), (64, 9), (64, 9), (64, 9), (64, 9), (64, 9), (64 :: nat, 9 :: nat)]"
    by simp
  have b: "(10::nat) \<noteq> noSq"
    by (simp add: noSq_def)
  have c: "\<not> bit (visitedSqs initBacktrack) 0"
    by (simp add: initBacktrack_def)
  from lookahead_degree [OF _ movesOf_a1 a b] movesOf_a1 a b c show ?thesis
    by simp
qed

end
